theory Spec2Isabelle
  imports Main "HOL-Library.Sublist"
begin

section \<open>The safe emitter of \<open>tools/eslint/lib/util/safe-emitter.js\<close>\<close>

text \<open>
  The module exports a factory. Each call allocates a private object \<open>listeners\<close>
  (created with \<open>Object.create(null)\<close>, so it has no inherited properties) and returns a
  frozen object with the three methods \<open>on\<close>, \<open>emit\<close> and \<open>eventNames\<close>, which are the only
  code that can reach \<open>listeners\<close>.

  The embedding passes the state explicitly. Listeners are JavaScript functions supplied by
  the callers: they may change the outside world, throw, and call the three methods of the
  emitter again while \<open>emit\<close> is running. Their bodies are therefore modelled as trees of
  the interactions they can have with the emitter, and \<open>emit\<close> is an interpreter for them.
\<close>

subsection \<open>Values\<close>

text \<open>
  JavaScript values, as far as the emitter can tell them apart: it never inspects the
  arguments of an event, and of a listener it only matters whether it is callable.
  Functions and other objects are references.
\<close>

datatype jsval =
    Undefined
  | Null
  | Boolean bool
  | Number int
  | String string
  | Object nat
  | Function nat

text \<open>What a \<open>throw\<close> carries: the \<open>TypeError\<close> raised by calling a value that is not a
  function, or a value thrown by a listener.\<close>

datatype exn = TypeError | Thrown jsval

datatype completion = Normal | Abrupt exn

subsection \<open>The registry object\<close>

text \<open>
  \<open>listeners\<close> is an ordinary object whose property keys are event names and whose property
  values are arrays of listeners. It is kept as the list of its properties in the order of
  their creation; each array is owned by exactly one property and is never shared.
\<close>

type_synonym registry = "(string \<times> jsval list) list"

text \<open>\<open>eventName in listeners\<close>: the object has no prototype, so this is the own-property test.\<close>

definition has_property :: "string \<Rightarrow> registry \<Rightarrow> bool" where
  "has_property eventName reg = (eventName \<in> set (map fst reg))"

text \<open>\<open>listeners[eventName]\<close>, \<open>None\<close> standing for \<open>undefined\<close>.\<close>

fun get_property :: "string \<Rightarrow> registry \<Rightarrow> jsval list option" where
  "get_property eventName [] = None"
| "get_property eventName ((k, v) # reg) =
     (if k = eventName then Some v else get_property eventName reg)"

text \<open>\<open>listeners[eventName] = v\<close>: an existing property keeps its place, a new one is created
  after all the others.\<close>

fun set_property :: "string \<Rightarrow> jsval list \<Rightarrow> registry \<Rightarrow> registry" where
  "set_property eventName v [] = [(eventName, v)]"
| "set_property eventName v ((k, w) # reg) =
     (if k = eventName then (k, v) # reg else (k, w) # set_property eventName v reg)"

subsection \<open>The order of \<open>Object.keys\<close>\<close>

text \<open>
  \<open>Object.keys\<close> lists the own enumerable string keys in the order of
  \<open>OrdinaryOwnPropertyKeys\<close>: first the keys that are array indices, in ascending numeric
  order, then the other strings in the order of property creation. An array index is the
  canonical decimal numeral of an integer from \<open>0\<close> to \<open>2\<^sup>3\<^sup>2 - 2\<close>.
\<close>

definition digit_value :: "char \<Rightarrow> nat option" where
  "digit_value c =
     (let n = of_char c :: nat in if 48 \<le> n \<and> n \<le> 57 then Some (n - 48) else None)"

fun decimal_value :: "nat \<Rightarrow> string \<Rightarrow> nat option" where
  "decimal_value acc [] = Some acc"
| "decimal_value acc (c # cs) =
     (case digit_value c of
        None \<Rightarrow> None
      | Some d \<Rightarrow> decimal_value (10 * acc + d) cs)"

definition array_index :: "string \<Rightarrow> nat option" where
  "array_index k =
     (case k of
        [] \<Rightarrow> None
      | c # cs \<Rightarrow>
          if c = CHR ''0'' \<and> cs \<noteq> [] then None
          else (case decimal_value 0 k of
                  None \<Rightarrow> None
                | Some i \<Rightarrow> if i < 4294967295 then Some i else None))"

definition index_keys :: "string list \<Rightarrow> (nat \<times> string) list" where
  "index_keys ks = List.map_filter (\<lambda>k. map_option (\<lambda>i. (i, k)) (array_index k)) ks"

definition own_property_keys :: "registry \<Rightarrow> string list" where
  "own_property_keys reg =
     (let ks = map fst reg
      in map snd (sort_key fst (index_keys ks)) @ filter (\<lambda>k. array_index k = None) ks)"

subsection \<open>State\<close>

text \<open>
  One invocation of a function value: the callee, the \<open>this\<close> value and the argument list it
  was called with, and the invocations that happened while it ran.
\<close>

datatype invocation =
  Invocation (callee: jsval) (this_value: jsval) (arguments: "jsval list")
    (nested: "invocation list")

text \<open>
  \<open>listeners\<close> is the closure variable of the emitter. \<open>world\<close> is everything else a listener
  can read and write. \<open>calls\<close> is a record of the invocations made so far at the current
  call depth; it is an observer's log, which no modelled code reads.
\<close>

record 'w state =
  listeners :: registry
  world :: 'w
  calls :: "invocation list"

text \<open>\<open>module.exports = () => { const listeners = Object.create(null); ... }\<close>\<close>

definition new_emitter :: "'w \<Rightarrow> 'w state" where
  "new_emitter w = \<lparr>listeners = [], world = w, calls = []\<rparr>"

subsection \<open>Listener bodies\<close>

text \<open>
  What the body of a function can do, as seen from the emitter: return (its result is
  discarded by \<open>emit\<close>), throw, read or update the outside world, and call \<open>on\<close>,
  \<open>eventNames\<close> or \<open>emit\<close> of the emitter, continuing with the result. A nested \<open>emit\<close>
  hands its completion to the continuation, which may rethrow it or, as after
  \<open>try ... catch\<close>, go on.
\<close>

datatype 'w prog =
    Return
  | Throw exn
  | Read "'w \<Rightarrow> 'w prog"
  | Update "'w \<Rightarrow> 'w" "'w prog"
  | CallOn string jsval "'w prog"
  | CallEventNames "string list \<Rightarrow> 'w prog"
  | CallEmit string "jsval list" "completion \<Rightarrow> 'w prog"

text \<open>The code of the functions: the body of function \<open>i\<close> for a \<open>this\<close> value and an
  argument list.\<close>

type_synonym 'w code = "nat \<Rightarrow> jsval \<Rightarrow> jsval list \<Rightarrow> 'w prog"

subsection \<open>The three methods\<close>

text \<open>
  \<^verbatim>\<open>on(eventName, listener) {
    if (eventName in listeners) { listeners[eventName].push(listener); }
    else { listeners[eventName] = [listener]; } }\<close>

  \<open>push\<close> changes the array in place; the array stays the value of the same property.
  Where the name is in the registry its property has a value (\<open>has_property_iff\<close> below), so
  the inner \<open>None\<close> does not arise.
\<close>

definition register :: "string \<Rightarrow> jsval \<Rightarrow> registry \<Rightarrow> registry" where
  "register eventName listener reg =
     (if has_property eventName reg then
        (case get_property eventName reg of
           None \<Rightarrow> reg
         | Some arr \<Rightarrow> set_property eventName (arr @ [listener]) reg)
      else set_property eventName [listener] reg)"

definition on :: "string \<Rightarrow> jsval \<Rightarrow> 'w state \<Rightarrow> 'w state" where
  "on eventName listener s = s\<lparr>listeners := register eventName listener (listeners s)\<rparr>"

text \<open>\<^verbatim>\<open>eventNames() { return Object.keys(listeners); }\<close>\<close>

definition eventNames :: "'w state \<Rightarrow> string list \<times> 'w state" where
  "eventNames s = (own_property_keys (listeners s), s)"

text \<open>The value of a formal parameter: the actual argument, or \<open>undefined\<close> when the call
  passed fewer.\<close>

definition parameter :: "jsval list \<Rightarrow> nat \<Rightarrow> jsval" where
  "parameter actuals i = (if i < length actuals then actuals ! i else Undefined)"

text \<open>
  \<^verbatim>\<open>emit(eventName, a, b, c) {
    if (eventName in listeners) {
      listeners[eventName].forEach(listener => listener(a, b, c)); } }\<close>

  \<open>Array.prototype.forEach\<close> reads the length of the array once, then for each index below
  it that the array still has reads the element as it is then, and calls the callback. The
  callback calls the element as a plain function: the \<open>this\<close> value is \<open>undefined\<close> and the
  arguments are \<open>a\<close>, \<open>b\<close>, \<open>c\<close>; calling a value that is not a function throws a
  \<open>TypeError\<close>. An abrupt completion of a call ends the loop and \<open>emit\<close>. The array is the
  value of the property \<open>eventName\<close>, which no code replaces or deletes, so the loop finds it
  under that name at every step; \<open>forEach\<close> on \<open>undefined\<close> would throw a \<open>TypeError\<close>.

  The first argument is fuel: every step of a listener body uses one unit, and \<open>None\<close> means
  the fuel did not suffice. A listener that emits its own event without end recurses without
  bound, and no amount of fuel gives such a run a result (\<open>emit_own_event_diverges\<close> below;
  an engine ends such a run when its stack is exhausted, which is not modelled).
\<close>

function exec :: "nat \<Rightarrow> 'w code \<Rightarrow> 'w prog \<Rightarrow> 'w state \<Rightarrow> (completion \<times> 'w state) option"
  and call_listener :: "nat \<Rightarrow> 'w code \<Rightarrow> jsval \<Rightarrow> jsval \<Rightarrow> jsval \<Rightarrow> jsval \<Rightarrow> 'w state
                          \<Rightarrow> (completion \<times> 'w state) option"
  and forEach :: "nat \<Rightarrow> 'w code \<Rightarrow> string \<Rightarrow> jsval \<Rightarrow> jsval \<Rightarrow> jsval \<Rightarrow> nat \<Rightarrow> nat \<Rightarrow> 'w state
                    \<Rightarrow> (completion \<times> 'w state) option"
  and emit :: "nat \<Rightarrow> 'w code \<Rightarrow> string \<Rightarrow> jsval list \<Rightarrow> 'w state
                 \<Rightarrow> (completion \<times> 'w state) option"
where
  "exec 0 code p s = None"
| "exec (Suc n) code Return s = Some (Normal, s)"
| "exec (Suc n) code (Throw x) s = Some (Abrupt x, s)"
| "exec (Suc n) code (Read f) s = exec n code (f (world s)) s"
| "exec (Suc n) code (Update u p) s = exec n code p (s\<lparr>world := u (world s)\<rparr>)"
| "exec (Suc n) code (CallOn eventName listener p) s = exec n code p (on eventName listener s)"
| "exec (Suc n) code (CallEventNames k) s =
     (case eventNames s of (names, s') \<Rightarrow> exec n code (k names) s')"
| "exec (Suc n) code (CallEmit eventName actuals k) s =
     (case emit n code eventName actuals s of
        None \<Rightarrow> None
      | Some (c, s') \<Rightarrow> exec n code (k c) s')"
| "call_listener n code listener a b c s =
     (case listener of
        Function i \<Rightarrow>
          (case exec n code (code i Undefined [a, b, c]) (s\<lparr>calls := []\<rparr>) of
             None \<Rightarrow> None
           | Some (r, s') \<Rightarrow>
               Some (r, s'\<lparr>calls := calls s @ [Invocation listener Undefined [a, b, c] (calls s')]\<rparr>))
      | _ \<Rightarrow> Some (Abrupt TypeError, s))"
| "forEach n code eventName a b c k len s =
     (if k < len then
        (case get_property eventName (listeners s) of
           None \<Rightarrow> forEach n code eventName a b c (Suc k) len s
         | Some arr \<Rightarrow>
             if k < length arr then
               (case call_listener n code (arr ! k) a b c s of
                  None \<Rightarrow> None
                | Some (Abrupt x, s') \<Rightarrow> Some (Abrupt x, s')
                | Some (Normal, s') \<Rightarrow> forEach n code eventName a b c (Suc k) len s')
             else forEach n code eventName a b c (Suc k) len s)
      else Some (Normal, s))"
| "emit n code eventName actuals s =
     (let a = parameter actuals 0; b = parameter actuals 1; c = parameter actuals 2
      in if has_property eventName (listeners s) then
           (case get_property eventName (listeners s) of
              None \<Rightarrow> Some (Abrupt TypeError, s)
            | Some arr \<Rightarrow> forEach n code eventName a b c 0 (length arr) s)
         else Some (Normal, s))"
  by pat_completeness auto
termination
  by (relation "inv_image (less_than <*lex*> less_than <*lex*> less_than)
        (\<lambda>x. case x of
           Inl (Inl (n, code, p, s)) \<Rightarrow> (n, 0, 0)
         | Inl (Inr (n, code, l, a, b, c, s)) \<Rightarrow> (n, 1, 0)
         | Inr (Inl (n, code, e, a, b, c, k, len, s)) \<Rightarrow> (n, 2, len - k)
         | Inr (Inr (n, code, e, as, s)) \<Rightarrow> (n, 3, 0))") auto

declare call_listener.simps [simp del] forEach.simps [simp del] emit.simps [simp del]

subsection \<open>Vocabulary of the properties\<close>

text \<open>The array of an event name, empty when the name has no property.\<close>

definition registered :: "registry \<Rightarrow> string \<Rightarrow> jsval list" where
  "registered reg eventName = (case get_property eventName reg of None \<Rightarrow> [] | Some arr \<Rightarrow> arr)"

text \<open>A sequence of calls of \<open>on\<close>, each given as the pair of its arguments, on the registry
  and on the state.\<close>

fun register_all :: "(string \<times> jsval) list \<Rightarrow> registry \<Rightarrow> registry" where
  "register_all [] reg = reg"
| "register_all (r # regs) reg = register_all regs (register (fst r) (snd r) reg)"

fun on_all :: "(string \<times> jsval) list \<Rightarrow> 'w state \<Rightarrow> 'w state" where
  "on_all [] s = s"
| "on_all (r # regs) s = on_all regs (on (fst r) (snd r) s)"

text \<open>The listeners that a sequence of calls of \<open>on\<close> registers for one event name, in the
  order of the calls.\<close>

definition registrations_for :: "string \<Rightarrow> (string \<times> jsval) list \<Rightarrow> jsval list" where
  "registrations_for eventName regs = map snd (filter (\<lambda>r. fst r = eventName) regs)"

text \<open>The elements of a list in the order of their first occurrence.\<close>

fun first_occurrences :: "'a list \<Rightarrow> 'a list" where
  "first_occurrences [] = []"
| "first_occurrences (x # xs) = x # filter (\<lambda>y. y \<noteq> x) (first_occurrences xs)"

text \<open>What a log shows of its top-level invocations: callee, \<open>this\<close> value and arguments.\<close>

definition heads :: "invocation list \<Rightarrow> (jsval \<times> jsval \<times> jsval list) list" where
  "heads log = map (\<lambda>i. (callee i, this_value i, arguments i)) log"

text \<open>An invocation together with all the invocations below it.\<close>

fun all_invocations :: "invocation \<Rightarrow> invocation list" where
  "all_invocations (Invocation f t as sub) =
     Invocation f t as sub # concat (map all_invocations sub)"

text \<open>
  A body is quiet when, whatever it reads, it returns without throwing and without calling
  \<open>emit\<close>; it may update the world, register listeners and ask for the event names.
  A body raises \<open>x\<close> when it does the same and then throws \<open>x\<close>.
\<close>

inductive quiet :: "'w prog \<Rightarrow> bool" where
  quiet_Return: "quiet Return"
| quiet_Read: "(\<And>w. quiet (f w)) \<Longrightarrow> quiet (Read f)"
| quiet_Update: "quiet p \<Longrightarrow> quiet (Update u p)"
| quiet_CallOn: "quiet p \<Longrightarrow> quiet (CallOn eventName listener p)"
| quiet_CallEventNames: "(\<And>names. quiet (k names)) \<Longrightarrow> quiet (CallEventNames k)"

inductive raises :: "exn \<Rightarrow> 'w prog \<Rightarrow> bool" where
  raises_Throw: "raises x (Throw x)"
| raises_Read: "(\<And>w. raises x (f w)) \<Longrightarrow> raises x (Read f)"
| raises_Update: "raises x p \<Longrightarrow> raises x (Update u p)"
| raises_CallOn: "raises x p \<Longrightarrow> raises x (CallOn eventName listener p)"
| raises_CallEventNames: "(\<And>names. raises x (k names)) \<Longrightarrow> raises x (CallEventNames k)"

text \<open>A listener is a function whose body, called as \<open>emit\<close> calls it, is quiet, or raises
  \<open>x\<close>.\<close>

definition quiet_listener :: "'w code \<Rightarrow> jsval list \<Rightarrow> jsval \<Rightarrow> bool" where
  "quiet_listener code args listener =
     (case listener of Function i \<Rightarrow> quiet (code i Undefined args) | _ \<Rightarrow> False)"

definition raising_listener :: "'w code \<Rightarrow> jsval list \<Rightarrow> exn \<Rightarrow> jsval \<Rightarrow> bool" where
  "raising_listener code args x listener =
     (case listener of Function i \<Rightarrow> raises x (code i Undefined args) | _ \<Rightarrow> False)"

text \<open>The invocation that \<open>emit\<close> with parameters \<open>a\<close>, \<open>b\<close>, \<open>c\<close> owes a listener.\<close>

definition invoked_with :: "jsval \<Rightarrow> jsval \<Rightarrow> jsval \<Rightarrow> jsval \<Rightarrow> jsval \<times> jsval \<times> jsval list" where
  "invoked_with a b c listener = (listener, Undefined, [a, b, c])"

text \<open>One registry grows into another: the keys of the first are an initial segment of the
  keys of the second, in the same order, and every array of the first is an initial segment
  of the array the second has for the same name.\<close>

definition grows :: "registry \<Rightarrow> registry \<Rightarrow> bool" where
  "grows reg reg' =
     (prefix (map fst reg) (map fst reg') \<and>
      (\<forall>eventName \<in> set (map fst reg).
         prefix (registered reg eventName) (registered reg' eventName)))"

text \<open>The states an emitter can be in: fresh, or reached by a call of \<open>on\<close>, by a call of
  \<open>emit\<close> that completed, or by a change of the world outside the emitter.\<close>

inductive reachable :: "'w code \<Rightarrow> 'w state \<Rightarrow> bool" for code :: "'w code" where
  reachable_new: "reachable code (new_emitter w)"
| reachable_on: "reachable code s \<Longrightarrow> reachable code (on eventName listener s)"
| reachable_emit: "reachable code s \<Longrightarrow> emit n code eventName actuals s = Some (r, s')
     \<Longrightarrow> reachable code s'"
| reachable_world: "reachable code s \<Longrightarrow> reachable code (s\<lparr>world := w\<rparr>)"

section \<open>Properties\<close>

subsection \<open>The registry\<close>

lemma has_property_iff: "has_property e reg \<longleftrightarrow> get_property e reg \<noteq> None"
  by (induction reg) (auto simp: has_property_def)

lemma get_set_property:
  "get_property e' (set_property e v reg) = (if e' = e then Some v else get_property e' reg)"
  by (induction reg) auto

lemma get_register:
  "get_property e' (register e l reg) =
     (if e' = e then Some (registered reg e @ [l]) else get_property e' reg)"
  by (auto simp: register_def registered_def get_set_property has_property_iff split: option.splits)

lemma registered_register:
  "registered (register e l reg) e' = (if e' = e then registered reg e @ [l] else registered reg e')"
  by (simp add: registered_def get_register)

lemma registered_register_all:
  "registered (register_all regs reg) e = registered reg e @ registrations_for e regs"
  by (induction regs arbitrary: reg) (auto simp: registered_register registrations_for_def)

lemma listeners_on_all: "listeners (on_all regs s) = register_all regs (listeners s)"
  by (induction regs arbitrary: s) (auto simp: on_def)

lemma calls_on_all: "calls (on_all regs s) = calls s"
  by (induction regs arbitrary: s) (auto simp: on_def)

lemma register_all_append:
  "register_all (xs @ ys) reg = register_all ys (register_all xs reg)"
  by (induction xs arbitrary: reg) auto

subsection \<open>Running listener bodies\<close>

text \<open>
  A relation between states that is reflexive and transitive, holds across a call of \<open>on\<close>
  and an update of the world, and survives the bookkeeping of the log around a call of a
  listener, holds between the state before and the state after every run that returns.
\<close>

lemma exec_relation:
  assumes rfl: "\<And>s. R s s"
    and trans: "\<And>s s1 s2. R s s1 \<Longrightarrow> R s1 s2 \<Longrightarrow> R s s2"
    and on: "\<And>e l s. R s (on e l s)"
    and upd: "\<And>s w. R s (s\<lparr>world := w\<rparr>)"
    and wrap: "\<And>s s' l a b c. R (s\<lparr>calls := []\<rparr>) s' \<Longrightarrow>
                 R s (s'\<lparr>calls := calls s @ [Invocation l Undefined [a, b, c] (calls s')]\<rparr>)"
  shows "exec n code p s = Some (r, s') \<Longrightarrow> R s s'"
    and "call_listener n code l a b c s = Some (r, s') \<Longrightarrow> R s s'"
    and "forEach n code e a b c k len s = Some (r, s') \<Longrightarrow> R s s'"
    and "emit n code e actuals s = Some (r, s') \<Longrightarrow> R s s'"
proof (induction n code p s and n code l a b c s and n code e a b c k len s and n code e actuals s
    arbitrary: r s' and r s' and r s' and r s' rule: exec_call_listener_forEach_emit.induct)
  case (1 code p s)
  then show ?case by simp
next
  case (2 n code s)
  then show ?case by (auto intro: rfl)
next
  case (3 n code x s)
  then show ?case by (auto intro: rfl)
next
  case (4 n code f s)
  then show ?case by simp
next
  case (5 n code u p s)
  from 5 have "R (s\<lparr>world := u (world s)\<rparr>) s'" by simp
  with upd[of s "u (world s)"] show ?case by (rule trans)
next
  case (6 n code eventName listener p s)
  from 6 have "R (on eventName listener s) s'" by simp
  with on[of s eventName listener] show ?case by (rule trans)
next
  case (7 n code k s)
  then show ?case by (simp add: eventNames_def)
next
  case (8 n code eventName actuals k s)
  from 8(3) obtain c s1 where e: "emit n code eventName actuals s = Some (c, s1)"
    and x: "exec n code (k c) s1 = Some (r, s')"
    by (auto split: option.splits)
  from 8(1)[OF e] 8(2)[OF e refl x] show ?case by (rule trans)
next
  case (9 n code listener a b c s)
  show ?case
  proof (cases listener)
    case (Function i)
    with "9.prems" obtain s1 where
      x: "exec n code (code i Undefined [a, b, c]) (s\<lparr>calls := []\<rparr>) = Some (r, s1)"
      and s': "s' = s1\<lparr>calls := calls s @ [Invocation listener Undefined [a, b, c] (calls s1)]\<rparr>"
      by (auto simp: call_listener.simps split: option.splits)
    from "9.IH"[OF Function x] have "R (s\<lparr>calls := []\<rparr>) s1" .
    from wrap[OF this] s' show ?thesis by simp
  qed (use "9.prems" in \<open>auto simp: call_listener.simps intro: rfl\<close>)
next
  case (10 n code eventName a b c k len s)
  show ?case
  proof (cases "k < len")
    case False
    with "10.prems" show ?thesis
      by (auto simp: forEach.simps[of n code eventName a b c k len s] intro: rfl)
  next
    case lt: True
    show ?thesis
    proof (cases "get_property eventName (listeners s)")
      case None
      with lt "10.prems" have "forEach n code eventName a b c (Suc k) len s = Some (r, s')"
        by (simp add: forEach.simps[of n code eventName a b c k len s])
      from "10.IH"(1)[OF lt None this] show ?thesis .
    next
      case (Some arr)
      show ?thesis
      proof (cases "k < length arr")
        case False
        with lt Some "10.prems" have "forEach n code eventName a b c (Suc k) len s = Some (r, s')"
          by (simp add: forEach.simps[of n code eventName a b c k len s])
        from "10.IH"(4)[OF lt Some False this] show ?thesis .
      next
        case True
        from lt Some True "10.prems" obtain c1 s1 where
          cl: "call_listener n code (arr ! k) a b c s = Some (c1, s1)"
          by (auto simp: forEach.simps[of n code eventName a b c k len s] split: option.splits)
        from "10.IH"(2)[OF lt Some True cl] have r1: "R s s1" .
        show ?thesis
        proof (cases c1)
          case Normal
          with lt Some True "10.prems" cl
          have fe: "forEach n code eventName a b c (Suc k) len s1 = Some (r, s')"
            by (simp add: forEach.simps[of n code eventName a b c k len s])
          from "10.IH"(3)[OF lt Some True cl[unfolded Normal] refl refl fe] have "R s1 s'" .
          with r1 show ?thesis by (rule trans)
        next
          case (Abrupt x)
          with lt Some True "10.prems" cl have "s' = s1"
            by (simp add: forEach.simps[of n code eventName a b c k len s])
          with r1 show ?thesis by simp
        qed
      qed
    qed
  qed
next
  case (11 n code eventName actuals s)
  then show ?case
    by (auto simp: emit.simps[of n code eventName actuals s] Let_def intro: rfl
        split: if_splits option.splits)
qed


lemma exec_registry:
  "exec n code p s = Some (r, s') \<Longrightarrow> \<exists>regs. listeners s' = register_all regs (listeners s)"
  by (rule exec_relation(1)[where R = "\<lambda>s s'. \<exists>regs. listeners s' = register_all regs (listeners s)"
        and n = n and code = code and p = p and r = r])
    (auto simp: on_def intro: exI[of _ "[]"] exI[of _ "[(e, l)]" for e l] 
        simp flip: register_all_append)

lemma call_listener_registry:
  "call_listener n code l a b c s = Some (r, s') \<Longrightarrow> \<exists>regs. listeners s' = register_all regs (listeners s)"
  by (rule exec_relation(2)[where R = "\<lambda>s s'. \<exists>regs. listeners s' = register_all regs (listeners s)"
        and n = n and code = code and l = l and a = a and b = b and c = c and r = r])
    (auto simp: on_def intro: exI[of _ "[]"] exI[of _ "[(e, l)]" for e l] 
        simp flip: register_all_append)

lemma emit_registry:
  "emit n code e actuals s = Some (r, s') \<Longrightarrow> \<exists>regs. listeners s' = register_all regs (listeners s)"
  by (rule exec_relation(4)[where R = "\<lambda>s s'. \<exists>regs. listeners s' = register_all regs (listeners s)"
        and n = n and code = code and e = e and actuals = actuals and r = r])
    (auto simp: on_def intro: exI[of _ "[]"] exI[of _ "[(e, l)]" for e l] 
        simp flip: register_all_append)

lemma fuel_mono:
  "exec n code p s = Some res \<Longrightarrow> n \<le> m \<Longrightarrow> exec m code p s = Some res"
  "call_listener n code l a b c s = Some res \<Longrightarrow> n \<le> m \<Longrightarrow> call_listener m code l a b c s = Some res"
  "forEach n code e a b c k len s = Some res \<Longrightarrow> n \<le> m \<Longrightarrow> forEach m code e a b c k len s = Some res"
  "emit n code e actuals s = Some res \<Longrightarrow> n \<le> m \<Longrightarrow> emit m code e actuals s = Some res"
proof (induction n code p s and n code l a b c s and n code e a b c k len s and n code e actuals s
    arbitrary: m res and m res and m res and m res rule: exec_call_listener_forEach_emit.induct)
  case (1 code p s)
  then show ?case by simp
next
  case (2 n code s)
  then show ?case by (cases m) simp_all
next
  case (3 n code x s)
  then show ?case by (cases m) simp_all
next
  case (4 n code f s)
  from "4.prems"(2) obtain m' where m: "m = Suc m'" and le: "n \<le> m'" by (cases m) auto
  from "4.prems"(1) have "exec n code (f (world s)) s = Some res" by simp
  from "4.IH"[OF this le] show ?case by (simp add: m)
next
  case (5 n code u p s)
  from "5.prems"(2) obtain m' where m: "m = Suc m'" and le: "n \<le> m'" by (cases m) auto
  from "5.prems"(1) have "exec n code p (s\<lparr>world := u (world s)\<rparr>) = Some res" by simp
  from "5.IH"[OF this le] show ?case by (simp add: m)
next
  case (6 n code eventName listener p s)
  from "6.prems"(2) obtain m' where m: "m = Suc m'" and le: "n \<le> m'" by (cases m) auto
  from "6.prems"(1) have "exec n code p (on eventName listener s) = Some res" by simp
  from "6.IH"[OF this le] show ?case by (simp add: m)
next
  case (7 n code k s)
  from "7.prems"(2) obtain m' where m: "m = Suc m'" and le: "n \<le> m'" by (cases m) auto
  from "7.prems"(1) have "exec n code (k (own_property_keys (listeners s))) s = Some res"
    by (simp add: eventNames_def)
  from "7.IH"[OF _ this le] show ?case by (simp add: m eventNames_def)
next
  case (8 n code eventName actuals k s)
  from "8.prems"(2) obtain m' where m: "m = Suc m'" and le: "n \<le> m'" by (cases m) auto
  from "8.prems"(1) obtain c s1 where e: "emit n code eventName actuals s = Some (c, s1)"
    and x: "exec n code (k c) s1 = Some res"
    by (auto split: option.splits)
  from "8.IH"(1)[OF e le] "8.IH"(2)[OF e refl x le] show ?case by (simp add: m)
next
  case (9 n code listener a b c s)
  show ?case
  proof (cases listener)
    case (Function i)
    with "9.prems" obtain r s1 where
      x: "exec n code (code i Undefined [a, b, c]) (s\<lparr>calls := []\<rparr>) = Some (r, s1)"
      by (auto simp: call_listener.simps split: option.splits)
    from "9.IH"[OF Function x "9.prems"(2)] x "9.prems"(1) Function show ?thesis
      by (simp add: call_listener.simps)
  qed (use "9.prems" in \<open>auto simp: call_listener.simps\<close>)
next
  case (10 n code eventName a b c k len s)
  show ?case
  proof (cases "k < len")
    case False
    with "10.prems" show ?thesis
      by (auto simp: forEach.simps[of _ code eventName a b c k len s])
  next
    case lt: True
    show ?thesis
    proof (cases "get_property eventName (listeners s)")
      case None
      with lt "10.prems" have "forEach n code eventName a b c (Suc k) len s = Some res"
        by (simp add: forEach.simps[of n code eventName a b c k len s])
      from "10.IH"(1)[OF lt None this "10.prems"(2)] lt None show ?thesis 
        by (simp add: forEach.simps[of m code eventName a b c k len s])
    next
      case (Some arr)
      show ?thesis
      proof (cases "k < length arr")
        case False
        with lt Some "10.prems" have "forEach n code eventName a b c (Suc k) len s = Some res"
          by (simp add: forEach.simps[of n code eventName a b c k len s])
        from "10.IH"(4)[OF lt Some False this "10.prems"(2)] lt Some False show ?thesis
          by (simp add: forEach.simps[of m code eventName a b c k len s])
      next
        case True
        from lt Some True "10.prems" obtain c1 s1 where
          cl: "call_listener n code (arr ! k) a b c s = Some (c1, s1)"
          by (auto simp: forEach.simps[of n code eventName a b c k len s] split: option.splits)
        from "10.IH"(2)[OF lt Some True cl "10.prems"(2)]
        have cm: "call_listener m code (arr ! k) a b c s = Some (c1, s1)" .
        show ?thesis
        proof (cases c1)
          case Normal
          with lt Some True "10.prems" cl
          have fe: "forEach n code eventName a b c (Suc k) len s1 = Some res"
            by (simp add: forEach.simps[of n code eventName a b c k len s])
          from "10.IH"(3)[OF lt Some True cl[unfolded Normal] refl refl fe "10.prems"(2)]
            lt Some True cm Normal
          show ?thesis by (simp add: forEach.simps[of m code eventName a b c k len s])
        next
          case (Abrupt x)
          with lt Some True "10.prems" cl have "res = (Abrupt x, s1)"
            by (simp add: forEach.simps[of n code eventName a b c k len s])
          moreover from cm Abrupt
          have "call_listener m code (arr ! k) a b c s = Some (Abrupt x, s1)" by simp
          ultimately show ?thesis
            using lt Some True by (simp add: forEach.simps[of m code eventName a b c k len s])
        qed
      qed
    qed
  qed
next
  case (11 n code eventName actuals s)
  show ?case
  proof (cases "has_property eventName (listeners s)")
    case False
    with "11.prems" show ?thesis
      by (simp add: emit.simps[of n code eventName actuals s]
          emit.simps[of m code eventName actuals s] Let_def)
  next
    case True
    show ?thesis
    proof (cases "get_property eventName (listeners s)")
      case None
      with True "11.prems" show ?thesis
        by (simp add: emit.simps[of n code eventName actuals s]
            emit.simps[of m code eventName actuals s] Let_def)
    next
      case (Some arr)
      with True "11.prems"(1)
      have "forEach n code eventName (parameter actuals 0) (parameter actuals 1)
              (parameter actuals 2) 0 (length arr) s = Some res"
        by (simp add: emit.simps[of n code eventName actuals s] Let_def)
      from "11.IH"[OF refl refl refl True Some this "11.prems"(2)] True Some show ?thesis
        by (simp add: emit.simps[of m code eventName actuals s] Let_def)
    qed
  qed
qed


lemma quiet_exec:
  "quiet p \<Longrightarrow> \<exists>n s'. exec n code p s = Some (Normal, s') \<and> calls s' = calls s"
proof (induction p arbitrary: s rule: quiet.induct)
  case quiet_Return
  have "exec (Suc 0) code Return s = Some (Normal, s)" by simp
  then show ?case by blast
next
  case (quiet_Read f)
  from quiet_Read.IH[of "world s" s] obtain n s' where
    "exec n code (f (world s)) s = Some (Normal, s')" "calls s' = calls s" by blast
  then have "exec (Suc n) code (Read f) s = Some (Normal, s') \<and> calls s' = calls s" by simp
  then show ?case by blast
next
  case (quiet_Update p u)
  from quiet_Update.IH[of "s\<lparr>world := u (world s)\<rparr>"] obtain n s' where
    "exec n code p (s\<lparr>world := u (world s)\<rparr>) = Some (Normal, s')" "calls s' = calls s" by auto
  then have "exec (Suc n) code (Update u p) s = Some (Normal, s') \<and> calls s' = calls s" by simp
  then show ?case by blast
next
  case (quiet_CallOn p eventName listener)
  from quiet_CallOn.IH[of "on eventName listener s"] obtain n s' where
    "exec n code p (on eventName listener s) = Some (Normal, s')" "calls s' = calls s"
    by (auto simp: on_def)
  then have "exec (Suc n) code (CallOn eventName listener p) s = Some (Normal, s') \<and> calls s' = calls s"
    by simp
  then show ?case by blast
next
  case (quiet_CallEventNames k)
  from quiet_CallEventNames.IH[of "own_property_keys (listeners s)" s] obtain n s' where
    "exec n code (k (own_property_keys (listeners s))) s = Some (Normal, s')" "calls s' = calls s"
    by blast
  then have "exec (Suc n) code (CallEventNames k) s = Some (Normal, s') \<and> calls s' = calls s"
    by (simp add: eventNames_def)
  then show ?case by blast
qed

lemma raises_exec:
  "raises x p \<Longrightarrow> \<exists>n s'. exec n code p s = Some (Abrupt x, s') \<and> calls s' = calls s"
proof (induction p arbitrary: s rule: raises.induct)
  case (raises_Throw x)
  have "exec (Suc 0) code (Throw x) s = Some (Abrupt x, s)" by simp
  then show ?case by blast
next
  case (raises_Read x f)
  from raises_Read.IH[of "world s" s] obtain n s' where
    "exec n code (f (world s)) s = Some (Abrupt x, s')" "calls s' = calls s" by blast
  then have "exec (Suc n) code (Read f) s = Some (Abrupt x, s') \<and> calls s' = calls s" by simp
  then show ?case by blast
next
  case (raises_Update x p u)
  from raises_Update.IH[of "s\<lparr>world := u (world s)\<rparr>"] obtain n s' where
    "exec n code p (s\<lparr>world := u (world s)\<rparr>) = Some (Abrupt x, s')" "calls s' = calls s" by auto
  then have "exec (Suc n) code (Update u p) s = Some (Abrupt x, s') \<and> calls s' = calls s" by simp
  then show ?case by blast
next
  case (raises_CallOn x p eventName listener)
  from raises_CallOn.IH[of "on eventName listener s"] obtain n s' where
    "exec n code p (on eventName listener s) = Some (Abrupt x, s')" "calls s' = calls s"
    by (auto simp: on_def)
  then have "exec (Suc n) code (CallOn eventName listener p) s = Some (Abrupt x, s') \<and> calls s' = calls s"
    by simp
  then show ?case by blast
next
  case (raises_CallEventNames x k)
  from raises_CallEventNames.IH[of "own_property_keys (listeners s)" s] obtain n s' where
    "exec n code (k (own_property_keys (listeners s))) s = Some (Abrupt x, s')" "calls s' = calls s"
    by blast
  then have "exec (Suc n) code (CallEventNames k) s = Some (Abrupt x, s') \<and> calls s' = calls s"
    by (simp add: eventNames_def)
  then show ?case by blast
qed

lemma call_listener_cases:
  assumes "call_listener n code l a b c s = Some (r, s')"
  shows "(\<exists>i sub. l = Function i \<and> calls s' = calls s @ [Invocation l Undefined [a, b, c] sub])
       \<or> ((\<forall>i. l \<noteq> Function i) \<and> r = Abrupt TypeError \<and> s' = s)"
  using assms by (cases l) (auto simp: call_listener.simps split: option.splits)

lemma call_quiet_listener:
  assumes "quiet_listener code [a, b, c] l"
  shows "\<exists>n s'. call_listener n code l a b c s = Some (Normal, s') \<and>
           calls s' = calls s @ [Invocation l Undefined [a, b, c] []]"
proof -
  from assms obtain i where l: "l = Function i" and q: "quiet (code i Undefined [a, b, c])"
    by (auto simp: quiet_listener_def split: jsval.splits)
  from quiet_exec[OF q, of code "s\<lparr>calls := []\<rparr>"] obtain n s1 where
    "exec n code (code i Undefined [a, b, c]) (s\<lparr>calls := []\<rparr>) = Some (Normal, s1)"
    "calls s1 = []" by auto
  then have "call_listener n code l a b c s =
      Some (Normal, s1\<lparr>calls := calls s @ [Invocation l Undefined [a, b, c] []]\<rparr>)"
    by (simp add: call_listener.simps l)
  moreover have "calls (s1\<lparr>calls := calls s @ [Invocation l Undefined [a, b, c] []]\<rparr>)
      = calls s @ [Invocation l Undefined [a, b, c] []]" by simp
  ultimately show ?thesis by blast
qed

lemma call_raising_listener:
  assumes "raising_listener code [a, b, c] x l"
  shows "\<exists>n s'. call_listener n code l a b c s = Some (Abrupt x, s') \<and>
           calls s' = calls s @ [Invocation l Undefined [a, b, c] []]"
proof -
  from assms obtain i where l: "l = Function i" and q: "raises x (code i Undefined [a, b, c])"
    by (auto simp: raising_listener_def split: jsval.splits)
  from raises_exec[OF q, of code "s\<lparr>calls := []\<rparr>"] obtain n s1 where
    "exec n code (code i Undefined [a, b, c]) (s\<lparr>calls := []\<rparr>) = Some (Abrupt x, s1)"
    "calls s1 = []" by auto
  then have "call_listener n code l a b c s =
      Some (Abrupt x, s1\<lparr>calls := calls s @ [Invocation l Undefined [a, b, c] []]\<rparr>)"
    by (simp add: call_listener.simps l)
  moreover have "calls (s1\<lparr>calls := calls s @ [Invocation l Undefined [a, b, c] []]\<rparr>)
      = calls s @ [Invocation l Undefined [a, b, c] []]" by simp
  ultimately show ?thesis by blast
qed


lemma get_register_all:
  "get_property e reg = Some arr \<Longrightarrow>
   get_property e (register_all regs reg) = Some (arr @ registrations_for e regs)"
proof (induction regs arbitrary: reg arr)
  case Nil
  then show ?case by (simp add: registrations_for_def)
next
  case (Cons r regs)
  show ?case
  proof (cases "fst r = e")
    case True
    with Cons.prems have "get_property e (register (fst r) (snd r) reg) = Some (arr @ [snd r])"
      by (simp add: get_register registered_def)
    from Cons.IH[OF this] True show ?thesis by (simp add: registrations_for_def)
  next
    case False
    with Cons.prems have "get_property e (register (fst r) (snd r) reg) = Some arr"
      by (simp add: get_register)
    from Cons.IH[OF this] False show ?thesis by (simp add: registrations_for_def)
  qed
qed

lemma forEach_direct:
  assumes "forEach n code e a b c k len s = Some (r, s')"
    and "get_property e (listeners s) = Some (ls @ extra)"
    and "len = length ls"
  shows "\<exists>new m extra'. calls s' = calls s @ new \<and> m \<le> len - k \<and>
           heads new = map (invoked_with a b c) (take m (drop k ls)) \<and>
           (r = Normal \<longrightarrow> m = len - k) \<and>
           get_property e (listeners s') = Some (ls @ extra')"
  using assms
proof (induction "len - k" arbitrary: k s extra)
  case 0
  then have "s' = s" "r = Normal"
    by (simp_all add: forEach.simps[of n code e a b c k])
  with 0 show ?case by (auto simp: heads_def)
next
  case (Suc d)
  then have lt: "k < len" by simp
  with Suc.prems have klt: "k < length (ls @ extra)" and nth: "(ls @ extra) ! k = ls ! k"
    by (simp_all add: nth_append)
  from Suc.prems(1) lt Suc.prems(2) klt nth obtain c1 s1 where
    cl: "call_listener n code (ls ! k) a b c s = Some (c1, s1)"
    by (auto simp: forEach.simps[of n code e a b c k] split: option.splits)
  from call_listener_registry[OF cl] obtain regs where
    "listeners s1 = register_all regs (listeners s)" by blast
  with get_register_all[OF Suc.prems(2), of regs]
  have g1: "get_property e (listeners s1) = Some (ls @ extra @ registrations_for e regs)"
    by simp
  have dr: "drop k ls = ls ! k # drop (Suc k) ls"
    using lt Suc.prems(3) by (simp add: Cons_nth_drop_Suc)
  from call_listener_cases[OF cl] show ?case
  proof
    assume "\<exists>i sub. ls ! k = Function i \<and> calls s1 = calls s @ [Invocation (ls ! k) Undefined [a, b, c] sub]"
    then obtain sub where c1: "calls s1 = calls s @ [Invocation (ls ! k) Undefined [a, b, c] sub]"
      by blast
    show ?case
    proof (cases c1)
      case Normal
      with Suc.prems(1) lt Suc.prems(2) klt nth cl
      have fe: "forEach n code e a b c (Suc k) len s1 = Some (r, s')"
        by (simp add: forEach.simps[of n code e a b c k])
      from Suc.hyps(2) have "d = len - Suc k" by simp
      from Suc.hyps(1)[OF this fe g1 Suc.prems(3)] obtain new m extra' where
        n: "calls s' = calls s1 @ new" "m \<le> len - Suc k"
        "heads new = map (invoked_with a b c) (take m (drop (Suc k) ls))"
        "r = Normal \<longrightarrow> m = len - Suc k"
        "get_property e (listeners s') = Some (ls @ extra')" by blast
      let ?new = "Invocation (ls ! k) Undefined [a, b, c] sub # new"
      have "calls s' = calls s @ ?new" using n(1) c1 by simp
      moreover have "Suc m \<le> len - k" using n(2) lt by simp
      moreover have "heads ?new = map (invoked_with a b c) (take (Suc m) (drop k ls))"
        using n(3) dr by (simp add: heads_def invoked_with_def)
      moreover have "r = Normal \<longrightarrow> Suc m = len - k" using n(4) lt by auto
      ultimately show ?thesis using n(5) by blast
    next
      case (Abrupt x)
      with Suc.prems(1) lt Suc.prems(2) klt nth cl have s': "s' = s1" "r = Abrupt x"
        by (simp_all add: forEach.simps[of n code e a b c k])
      let ?new = "[Invocation (ls ! k) Undefined [a, b, c] sub]"
      have "calls s' = calls s @ ?new" using c1 s' by simp
      moreover have "Suc 0 \<le> len - k" using lt by simp
      moreover have "heads ?new = map (invoked_with a b c) (take (Suc 0) (drop k ls))"
        using dr by (simp add: heads_def invoked_with_def)
      moreover have "r = Normal \<longrightarrow> Suc 0 = len - k" using s' by simp
      ultimately show ?thesis using g1 s' by blast
    qed
  next
    assume "(\<forall>i. ls ! k \<noteq> Function i) \<and> c1 = Abrupt TypeError \<and> s1 = s"
    then have c1: "c1 = Abrupt TypeError" and s1: "s1 = s" by simp_all
    with Suc.prems(1) lt Suc.prems(2) klt nth cl have s': "s' = s" "r = Abrupt TypeError"
      by (simp_all add: forEach.simps[of n code e a b c k])
    have "calls s' = calls s @ []" using s' by simp
    moreover have "heads [] = map (invoked_with a b c) (take 0 (drop k ls))"
      by (simp add: heads_def)
    moreover have "r = Normal \<longrightarrow> 0 = len - k" using s' by simp
    ultimately show ?thesis using Suc.prems(2) s' by blast
  qed
qed


lemma forEach_quiet:
  assumes "get_property e (listeners s) = Some (ls @ extra)"
    and "len = length ls"
    and "\<forall>l \<in> set (drop k ls). quiet_listener code [a, b, c] l"
  shows "\<exists>n s' extra'. forEach n code e a b c k len s = Some (Normal, s') \<and>
           calls s' = calls s @ map (\<lambda>l. Invocation l Undefined [a, b, c] []) (drop k ls) \<and>
           get_property e (listeners s') = Some (ls @ extra')"
  using assms
proof (induction "len - k" arbitrary: k s extra)
  case 0
  then have "forEach 0 code e a b c k len s = Some (Normal, s)"
    by (simp add: forEach.simps[of 0 code e a b c k])
  with 0 show ?case by fastforce
next
  case (Suc d)
  then have lt: "k < len" by simp
  with Suc.prems have klt: "k < length (ls @ extra)" and nth: "(ls @ extra) ! k = ls ! k"
    by (simp_all add: nth_append)
  have dr: "drop k ls = ls ! k # drop (Suc k) ls"
    using lt Suc.prems(2) by (simp add: Cons_nth_drop_Suc)
  with Suc.prems(3) have q: "quiet_listener code [a, b, c] (ls ! k)"
    and qs: "\<forall>l \<in> set (drop (Suc k) ls). quiet_listener code [a, b, c] l" by simp_all
  from call_quiet_listener[OF q, of s] obtain n1 s1 where
    cl: "call_listener n1 code (ls ! k) a b c s = Some (Normal, s1)"
    and c1: "calls s1 = calls s @ [Invocation (ls ! k) Undefined [a, b, c] []]" by blast
  from call_listener_registry[OF cl] obtain regs where
    "listeners s1 = register_all regs (listeners s)" by blast
  with get_register_all[OF Suc.prems(1), of regs]
  have g1: "get_property e (listeners s1) = Some (ls @ extra @ registrations_for e regs)"
    by simp
  from Suc.hyps(2) have "d = len - Suc k" by simp
  from Suc.hyps(1)[OF this g1 Suc.prems(2) qs] obtain n2 s' extra' where
    fe: "forEach n2 code e a b c (Suc k) len s1 = Some (Normal, s')"
    and c2: "calls s' = calls s1 @ map (\<lambda>l. Invocation l Undefined [a, b, c] []) (drop (Suc k) ls)"
    and g2: "get_property e (listeners s') = Some (ls @ extra')" by blast
  let ?n = "max n1 n2"
  from fuel_mono(2)[OF cl, of ?n]
  have cl': "call_listener ?n code (ls ! k) a b c s = Some (Normal, s1)" by simp
  from fuel_mono(3)[OF fe, of ?n]
  have fe': "forEach ?n code e a b c (Suc k) len s1 = Some (Normal, s')" by simp
  from lt Suc.prems(1) klt nth cl' fe'
  have "forEach ?n code e a b c k len s = Some (Normal, s')"
    by (simp add: forEach.simps[of ?n code e a b c k])
  moreover have "calls s' = calls s @ map (\<lambda>l. Invocation l Undefined [a, b, c] []) (drop k ls)"
    using c1 c2 dr by simp
  ultimately show ?case using g2 by blast
qed

lemma forEach_raising:
  assumes "get_property e (listeners s) = Some ((pre @ l # post) @ extra)"
    and "len = length (pre @ l # post)"
    and "k \<le> length pre"
    and "\<forall>f \<in> set (drop k pre). quiet_listener code [a, b, c] f"
    and "raising_listener code [a, b, c] x l"
  shows "\<exists>n s'. forEach n code e a b c k len s = Some (Abrupt x, s') \<and>
           calls s' = calls s @ map (\<lambda>l. Invocation l Undefined [a, b, c] []) (drop k pre @ [l])"
  using assms
proof (induction "length pre - k" arbitrary: k s extra)
  case 0
  then have k: "k = length pre" by simp
  with "0.prems" have lt: "k < len" and klt: "k < length ((pre @ l # post) @ extra)"
    and nth: "((pre @ l # post) @ extra) ! k = l"
    by (simp_all add: nth_append)
  from call_raising_listener[OF "0.prems"(5), of s] obtain n s1 where
    cl: "call_listener n code l a b c s = Some (Abrupt x, s1)"
    and c1: "calls s1 = calls s @ [Invocation l Undefined [a, b, c] []]" by blast
  from lt "0.prems"(1) klt nth cl
  have "forEach n code e a b c k len s = Some (Abrupt x, s1)"
    by (simp add: forEach.simps[of n code e a b c k])
  with c1 k show ?case by auto
next
  case (Suc d)
  then have kp: "k < length pre" by simp
  with Suc.prems have lt: "k < len" and klt: "k < length ((pre @ l # post) @ extra)"
    and nth: "((pre @ l # post) @ extra) ! k = pre ! k"
    by (simp_all add: nth_append)
  have dr: "drop k pre = pre ! k # drop (Suc k) pre"
    using kp by (simp add: Cons_nth_drop_Suc)
  with Suc.prems(4) have q: "quiet_listener code [a, b, c] (pre ! k)"
    and qs: "\<forall>l \<in> set (drop (Suc k) pre). quiet_listener code [a, b, c] l" by simp_all
  from call_quiet_listener[OF q, of s] obtain n1 s1 where
    cl: "call_listener n1 code (pre ! k) a b c s = Some (Normal, s1)"
    and c1: "calls s1 = calls s @ [Invocation (pre ! k) Undefined [a, b, c] []]" by blast
  from call_listener_registry[OF cl] obtain regs where
    "listeners s1 = register_all regs (listeners s)" by blast
  with get_register_all[OF Suc.prems(1), of regs]
  have g1: "get_property e (listeners s1) =
      Some ((pre @ l # post) @ extra @ registrations_for e regs)"
    by simp
  from Suc.hyps(2) have d: "d = length pre - Suc k" by simp
  from kp have le: "Suc k \<le> length pre" by simp
  from Suc.hyps(1)[OF d g1 Suc.prems(2) le qs Suc.prems(5)] obtain n2 s' where
    fe: "forEach n2 code e a b c (Suc k) len s1 = Some (Abrupt x, s')"
    and c2: "calls s' = calls s1 @
        map (\<lambda>l. Invocation l Undefined [a, b, c] []) (drop (Suc k) pre @ [l])" by blast
  let ?n = "max n1 n2"
  from fuel_mono(2)[OF cl, of ?n]
  have cl': "call_listener ?n code (pre ! k) a b c s = Some (Normal, s1)" by simp
  from fuel_mono(3)[OF fe, of ?n]
  have fe': "forEach ?n code e a b c (Suc k) len s1 = Some (Abrupt x, s')" by simp
  from lt Suc.prems(1) klt nth cl' fe'
  have "forEach ?n code e a b c k len s = Some (Abrupt x, s')"
    by (simp add: forEach.simps[of ?n code e a b c k])
  moreover have "calls s' = calls s @
      map (\<lambda>l. Invocation l Undefined [a, b, c] []) (drop k pre @ [l])"
    using c1 c2 dr by simp
  ultimately show ?case by blast
qed

lemma emit_direct:
  assumes "emit n code e actuals s = Some (r, s')"
  shows "\<exists>new m added. calls s' = calls s @ new \<and> m \<le> length (registered (listeners s) e) \<and>
           heads new = map (invoked_with (parameter actuals 0) (parameter actuals 1)
                              (parameter actuals 2)) (take m (registered (listeners s) e)) \<and>
           (r = Normal \<longrightarrow> m = length (registered (listeners s) e)) \<and>
           registered (listeners s') e = registered (listeners s) e @ added"
proof (cases "get_property e (listeners s)")
  case None
  with assms have "s' = s" "r = Normal"
    by (simp_all add: emit.simps[of n code e actuals s] Let_def has_property_iff)
  moreover have "registered (listeners s) e = []" using None by (simp add: registered_def)
  ultimately show ?thesis by (simp add: heads_def)
next
  case (Some arr)
  with assms have fe: "forEach n code e (parameter actuals 0) (parameter actuals 1)
      (parameter actuals 2) 0 (length arr) s = Some (r, s')"
    by (simp add: emit.simps[of n code e actuals s] Let_def has_property_iff)
  from Some have g: "get_property e (listeners s) = Some (arr @ [])" by simp
  from forEach_direct[OF fe g refl] Some show ?thesis
    by (fastforce simp: registered_def)
qed

lemma emit_quiet:
  assumes "\<forall>l \<in> set (registered (listeners s) e).
      quiet_listener code [parameter actuals 0, parameter actuals 1, parameter actuals 2] l"
  shows "\<exists>n s' added. emit n code e actuals s = Some (Normal, s') \<and>
           calls s' = calls s @ map (\<lambda>l. Invocation l Undefined
               [parameter actuals 0, parameter actuals 1, parameter actuals 2] [])
               (registered (listeners s) e) \<and>
           registered (listeners s') e = registered (listeners s) e @ added"
proof (cases "get_property e (listeners s)")
  case None
  then have "emit 0 code e actuals s = Some (Normal, s)"
    by (simp add: emit.simps[of 0 code e actuals s] Let_def has_property_iff)
  moreover have "registered (listeners s) e = []" using None by (simp add: registered_def)
  ultimately show ?thesis by fastforce
next
  case (Some arr)
  then have g: "get_property e (listeners s) = Some (arr @ [])" 
    and r: "registered (listeners s) e = arr" by (simp_all add: registered_def)
  from assms r have q: "\<forall>l \<in> set (drop 0 arr).
      quiet_listener code [parameter actuals 0, parameter actuals 1, parameter actuals 2] l"
    by simp
  from forEach_quiet[OF g refl q] obtain n s' extra' where
    fe: "forEach n code e (parameter actuals 0) (parameter actuals 1)
      (parameter actuals 2) 0 (length arr) s = Some (Normal, s')"
    and c: "calls s' = calls s @ map (\<lambda>l. Invocation l Undefined
               [parameter actuals 0, parameter actuals 1, parameter actuals 2] []) (drop 0 arr)"
    and g': "get_property e (listeners s') = Some (arr @ extra')" by blast
  from fe Some have "emit n code e actuals s = Some (Normal, s')"
    by (simp add: emit.simps[of n code e actuals s] Let_def has_property_iff)
  moreover from g' have "registered (listeners s') e = arr @ extra'" by (simp add: registered_def)
  ultimately show ?thesis using c r by auto
qed

lemma emit_raising:
  assumes "registered (listeners s) e = pre @ l # post"
    and "\<forall>f \<in> set pre.
      quiet_listener code [parameter actuals 0, parameter actuals 1, parameter actuals 2] f"
    and "raising_listener code [parameter actuals 0, parameter actuals 1, parameter actuals 2] x l"
  shows "\<exists>n s'. emit n code e actuals s = Some (Abrupt x, s') \<and>
           calls s' = calls s @ map (\<lambda>l. Invocation l Undefined
               [parameter actuals 0, parameter actuals 1, parameter actuals 2] []) (pre @ [l])"
proof -
  from assms(1) have Some: "get_property e (listeners s) = Some (pre @ l # post)"
    by (cases "get_property e (listeners s)") (simp_all add: registered_def)
  then have g: "get_property e (listeners s) = Some ((pre @ l # post) @ [])" by simp
  from assms(2) have q: "\<forall>f \<in> set (drop 0 pre).
      quiet_listener code [parameter actuals 0, parameter actuals 1, parameter actuals 2] f"
    by simp
  from forEach_raising[OF g refl le0 q assms(3)] obtain n s' where
    fe: "forEach n code e (parameter actuals 0) (parameter actuals 1)
      (parameter actuals 2) 0 (length (pre @ l # post)) s = Some (Abrupt x, s')"
    and c: "calls s' = calls s @ map (\<lambda>l. Invocation l Undefined
               [parameter actuals 0, parameter actuals 1, parameter actuals 2] []) (drop 0 pre @ [l])"
    by blast
  from fe Some have "emit n code e actuals s = Some (Abrupt x, s')"
    by (simp add: emit.simps[of n code e actuals s] Let_def has_property_iff)
  with c show ?thesis by auto
qed

lemma parameters_triple:
  "parameter [a, b, c] 0 = a" "parameter [a, b, c] (Suc 0) = b" "parameter [a, b, c] 2 = c"
  by (simp_all add: parameter_def)

lemma heads_map_Invocation:
  "heads (map (\<lambda>l. Invocation l Undefined [a, b, c] []) ls) = map (invoked_with a b c) ls"
  by (simp add: heads_def invoked_with_def)

lemma emit_deterministic:
  assumes "emit n code e actuals s = Some r" and "emit m code e actuals s = Some r'"
  shows "r = r'"
proof -
  from fuel_mono(4)[OF assms(1), of "max n m"] fuel_mono(4)[OF assms(2), of "max n m"]
  show ?thesis by simp
qed

lemma emit_own_event_diverges:
  "emit n (\<lambda>i t args. CallEmit eventName [] (\<lambda>r. Return)) eventName []
     \<lparr>listeners = [(eventName, [Function 0])], world = w, calls = log\<rparr> = None"
proof (induction n arbitrary: log)
  case 0
  show ?case
    by (simp add: emit.simps forEach.simps call_listener.simps has_property_def Let_def)
next
  case (Suc n)
  then show ?case
    by (simp add: emit.simps[of "Suc n"] forEach.simps call_listener.simps has_property_def
        Let_def)
qed

subsection \<open>Emitting an event without listeners\<close>

text \<open>
  Claim C3. For an event name that has no property in the registry, as every name on a fresh
  emitter, \<open>emit\<close> completes normally whatever the fuel, and the state it returns is the state
  it was given: the registry, the world and the log of invocations are unchanged, so no
  listener was invoked.
\<close>

theorem emit_without_listeners:
  "\<not> has_property eventName (listeners s) \<Longrightarrow> emit n code eventName actuals s = Some (Normal, s)"
  by (simp add: emit.simps Let_def)

theorem emit_without_listeners_witness:
  "\<not> has_property ''Unregistered'' (listeners (new_emitter ())) \<and>
   emit 0 (\<lambda>i t args. Return) ''Unregistered'' [] (new_emitter ())
     = Some (Normal, new_emitter ())"
  using emit_without_listeners [of "''Unregistered''" "new_emitter ()" 0 "\<lambda>i t args. Return" "[]"]
  by (simp add: new_emitter_def has_property_def)

subsection \<open>Emitting an event with listeners\<close>

text \<open>
  Claim C1. Let \<open>s\<close> be the state after any sequence \<open>regs\<close> of calls of \<open>on\<close>, made in any
  state \<open>s0\<close>, and let \<open>L\<close> be the listeners of \<open>eventName\<close>: those \<open>s0\<close> already had, then
  those of \<open>regs\<close> in the order of the calls. Whenever \<open>emit(eventName, a, b, c)\<close> completes
  normally in \<open>s\<close>, whatever the listeners do, the invocations it made itself are exactly one
  per element of \<open>L\<close>, in the order of \<open>L\<close>, each with the arguments \<open>a\<close>, \<open>b\<close>, \<open>c\<close>. And
  when every listener in \<open>L\<close> is a function with a quiet body, \<open>emit\<close> does complete normally,
  given enough fuel. (Listeners that throw are the subject of C2.)
\<close>

theorem emit_invokes_listeners_in_registration_order:
  assumes "s = on_all regs s0"
    and "L = registered (listeners s0) e @ registrations_for e regs"
  shows "(\<forall>n s'. emit n code e [a, b, c] s = Some (Normal, s') \<longrightarrow>
            (\<exists>new. calls s' = calls s @ new \<and> heads new = map (invoked_with a b c) L))
       \<and> ((\<forall>l \<in> set L. quiet_listener code [a, b, c] l) \<longrightarrow>
            (\<exists>n s' new. emit n code e [a, b, c] s = Some (Normal, s') \<and>
               calls s' = calls s @ new \<and> heads new = map (invoked_with a b c) L))"
proof -
  have L: "registered (listeners s) e = L"
    using assms by (simp add: listeners_on_all registered_register_all)
  show ?thesis
  proof (intro conjI allI impI)
    fix n s'
    assume "emit n code e [a, b, c] s = Some (Normal, s')"
    from emit_direct[OF this] L
    show "\<exists>new. calls s' = calls s @ new \<and> heads new = map (invoked_with a b c) L"
      by (auto simp: parameters_triple)
  next
    assume "\<forall>l \<in> set L. quiet_listener code [a, b, c] l"
    with L have "\<forall>l \<in> set (registered (listeners s) e).
      quiet_listener code [parameter [a, b, c] 0, parameter [a, b, c] 1, parameter [a, b, c] 2] l"
      by (simp add: parameters_triple)
    from emit_quiet[OF this] obtain n s' where
      "emit n code e [a, b, c] s = Some (Normal, s')"
      "calls s' = calls s @ map (\<lambda>l. Invocation l Undefined [a, b, c] []) L"
      by (auto simp: parameters_triple L)
    moreover note heads_map_Invocation[of a b c L]
    ultimately show "\<exists>n s' new. emit n code e [a, b, c] s = Some (Normal, s') \<and>
               calls s' = calls s @ new \<and> heads new = map (invoked_with a b c) L"
      by blast
  qed
qed

theorem emit_invokes_listeners_in_registration_order_witness:
  "emit 1 (\<lambda>i t args. Return) ''x'' [Number 1, Number 2, Number 3]
     (on_all [(''x'', Function 0), (''y'', Function 2), (''x'', Function 1)] (new_emitter ()))
   = Some (Normal,
       \<lparr>listeners = [(''x'', [Function 0, Function 1]), (''y'', [Function 2])], world = (),
        calls = [Invocation (Function 0) Undefined [Number 1, Number 2, Number 3] [],
                 Invocation (Function 1) Undefined [Number 1, Number 2, Number 3] []]\<rparr>) \<and>
   heads [Invocation (Function 0) Undefined [Number 1, Number 2, Number 3] [],
          Invocation (Function 1) Undefined [Number 1, Number 2, Number 3] []]
     = map (invoked_with (Number 1) (Number 2) (Number 3)) [Function 0, Function 1] \<and>
   quiet_listener (\<lambda>i t args. Return :: unit prog) [Number 1, Number 2, Number 3]
     (Function 0) \<and>
   quiet_listener (\<lambda>i t args. Return :: unit prog) [Number 1, Number 2, Number 3]
     (Function 1) \<and>
   (\<exists>n s' new.
      emit n (\<lambda>i t args. Return) ''x'' [Number 1, Number 2, Number 3]
        (on_all [(''x'', Function 0), (''y'', Function 2), (''x'', Function 1)] (new_emitter ()))
        = Some (Normal, s') \<and>
      calls s' = [] @ new \<and>
      heads new = [(Function 0, Undefined, [Number 1, Number 2, Number 3]),
                   (Function 1, Undefined, [Number 1, Number 2, Number 3])])"
proof -
  let ?code = "\<lambda>(i::nat) (t::jsval) (args::jsval list). (Return :: unit prog)"
  let ?regs = "[(''x'', Function 0), (''y'', Function 2), (''x'', Function 1)]"
  let ?s = "on_all ?regs (new_emitter ())"
  let ?log = "[Invocation (Function 0) Undefined [Number 1, Number 2, Number 3] [],
               Invocation (Function 1) Undefined [Number 1, Number 2, Number 3] []]"
  let ?s' = "\<lparr>listeners = [(''x'', [Function 0, Function 1]), (''y'', [Function 2])], world = (),
        calls = ?log\<rparr>"
  have e: "emit 1 ?code ''x'' [Number 1, Number 2, Number 3] ?s = Some (Normal, ?s')"
    by (simp add: emit.simps forEach.simps call_listener.simps on_def register_def
        has_property_def new_emitter_def Let_def parameter_def)
  have L: "[Function 0, Function 1]
      = registered (listeners (new_emitter ())) ''x'' @ registrations_for ''x'' ?regs"
    by (simp add: registered_def registrations_for_def new_emitter_def)
  note t = emit_invokes_listeners_in_registration_order
    [OF refl L, of ?code "Number 1" "Number 2" "Number 3"]
  from t e obtain new where "calls ?s' = calls ?s @ new"
    "heads new = map (invoked_with (Number 1) (Number 2) (Number 3)) [Function 0, Function 1]"
    by blast
  then have h: "heads ?log
      = map (invoked_with (Number 1) (Number 2) (Number 3)) [Function 0, Function 1]"
    by (simp add: on_def new_emitter_def)
  have q0: "quiet_listener ?code [Number 1, Number 2, Number 3] (Function 0)"
    and q1: "quiet_listener ?code [Number 1, Number 2, Number 3] (Function 1)"
    by (simp_all add: quiet_listener_def quiet.intros)
  then have "\<forall>l \<in> set [Function 0, Function 1].
      quiet_listener ?code [Number 1, Number 2, Number 3] l" by simp
  with t obtain n s' new where
    "emit n ?code ''x'' [Number 1, Number 2, Number 3] ?s = Some (Normal, s')"
    "calls s' = calls ?s @ new"
    "heads new = map (invoked_with (Number 1) (Number 2) (Number 3)) [Function 0, Function 1]"
    by blast
  then have r: "emit n ?code ''x'' [Number 1, Number 2, Number 3] ?s = Some (Normal, s')"
    "calls s' = [] @ new"
    "heads new = [(Function 0, Undefined, [Number 1, Number 2, Number 3]),
                  (Function 1, Undefined, [Number 1, Number 2, Number 3])]"
    by (simp_all add: on_def new_emitter_def invoked_with_def)
  show ?thesis
    by (intro conjI exI[of _ n] exI[of _ s'] exI[of _ new]) (rule e h q0 q1 r)+
qed

subsection \<open>A listener that throws\<close>

text \<open>
  Claim C2. Let the array of \<open>eventName\<close> be \<open>pre @ l # post\<close>, where the listeners in \<open>pre\<close>
  are functions with quiet bodies and \<open>l\<close> is a function whose body throws \<open>x\<close>. Then
  \<open>emit(eventName, a, b, c)\<close> completes abruptly with \<open>x\<close>: the error reaches the caller of
  \<open>emit\<close>. The invocations \<open>emit\<close> made are those of \<open>pre\<close> and of \<open>l\<close>, in this order, and no
  other: no listener of \<open>post\<close> is invoked. No amount of fuel gives \<open>emit\<close> another result.
\<close>

theorem emit_stops_at_throwing_listener:
  assumes "registered (listeners s) e = pre @ l # post"
    and "\<forall>f \<in> set pre. quiet_listener code [a, b, c] f"
    and "raising_listener code [a, b, c] x l"
  shows "\<exists>n s' new. emit n code e [a, b, c] s = Some (Abrupt x, s') \<and>
           calls s' = calls s @ new \<and>
           heads new = map (invoked_with a b c) (pre @ [l]) \<and>
           (\<forall>m r. emit m code e [a, b, c] s = Some r \<longrightarrow> r = (Abrupt x, s'))"
proof -
  from assms(2) have q: "\<forall>f \<in> set pre.
      quiet_listener code [parameter [a, b, c] 0, parameter [a, b, c] 1, parameter [a, b, c] 2] f"
    by (simp add: parameters_triple)
  from assms(3) have r: "raising_listener code
      [parameter [a, b, c] 0, parameter [a, b, c] 1, parameter [a, b, c] 2] x l"
    by (simp add: parameters_triple)
  from emit_raising[OF assms(1) q r] obtain n s' where
    e: "emit n code e [a, b, c] s = Some (Abrupt x, s')"
    and c: "calls s' = calls s @ map (\<lambda>l. Invocation l Undefined [a, b, c] []) (pre @ [l])"
    by (auto simp: parameters_triple)
  have "\<forall>m r. emit m code e [a, b, c] s = Some r \<longrightarrow> r = (Abrupt x, s')"
    using emit_deterministic[OF _ e] by blast
  with e c heads_map_Invocation[of a b c "pre @ [l]"] show ?thesis by blast
qed

theorem emit_stops_at_throwing_listener_witness:
  "registered (listeners (on_all [(''e'', Function 0), (''e'', Function 1), (''e'', Function 2)]
      (new_emitter ()))) ''e'' = [Function 0] @ Function 1 # [Function 2] \<and>
   quiet_listener
     (\<lambda>i t args. if i = 1 then Throw (Thrown (String ''boom'')) else (Return :: unit prog))
     [Number 1, Number 2, Number 3] (Function 0) \<and>
   raising_listener
     (\<lambda>i t args. if i = 1 then Throw (Thrown (String ''boom'')) else (Return :: unit prog))
     [Number 1, Number 2, Number 3] (Thrown (String ''boom'')) (Function 1) \<and>
   emit 1 (\<lambda>i t args. if i = 1 then Throw (Thrown (String ''boom'')) else Return) ''e''
     [Number 1, Number 2, Number 3]
     (on_all [(''e'', Function 0), (''e'', Function 1), (''e'', Function 2)] (new_emitter ()))
   = Some (Abrupt (Thrown (String ''boom'')),
       \<lparr>listeners = [(''e'', [Function 0, Function 1, Function 2])], world = (),
        calls = [Invocation (Function 0) Undefined [Number 1, Number 2, Number 3] [],
                 Invocation (Function 1) Undefined [Number 1, Number 2, Number 3] []]\<rparr>) \<and>
   (\<exists>new. [Invocation (Function 0) Undefined [Number 1, Number 2, Number 3] [],
           Invocation (Function 1) Undefined [Number 1, Number 2, Number 3] []] = [] @ new \<and>
      heads new = [(Function 0, Undefined, [Number 1, Number 2, Number 3]),
                   (Function 1, Undefined, [Number 1, Number 2, Number 3])])"
proof -
  let ?code = "\<lambda>(i::nat) (t::jsval) (args::jsval list).
      if i = 1 then Throw (Thrown (String ''boom'')) else (Return :: unit prog)"
  let ?s = "on_all [(''e'', Function 0), (''e'', Function 1), (''e'', Function 2)] (new_emitter ())"
  let ?log = "[Invocation (Function 0) Undefined [Number 1, Number 2, Number 3] [],
               Invocation (Function 1) Undefined [Number 1, Number 2, Number 3] []]"
  let ?s' = "\<lparr>listeners = [(''e'', [Function 0, Function 1, Function 2])], world = (),
        calls = ?log\<rparr>"
  have r: "registered (listeners ?s) ''e'' = [Function 0] @ Function 1 # [Function 2]"
    by (simp add: on_def register_def has_property_def registered_def new_emitter_def)
  have q0: "quiet_listener ?code [Number 1, Number 2, Number 3] (Function 0)"
    by (simp add: quiet_listener_def quiet.intros)
  then have q: "\<forall>f \<in> set [Function 0]. quiet_listener ?code [Number 1, Number 2, Number 3] f"
    by simp
  have t: "raising_listener ?code [Number 1, Number 2, Number 3] (Thrown (String ''boom''))
      (Function 1)"
    by (simp add: raising_listener_def raises.intros)
  have e: "emit 1 ?code ''e'' [Number 1, Number 2, Number 3] ?s
      = Some (Abrupt (Thrown (String ''boom'')), ?s')"
    by (simp add: emit.simps forEach.simps call_listener.simps on_def register_def
        has_property_def new_emitter_def Let_def parameter_def)
  from emit_stops_at_throwing_listener[OF r q t] obtain s' new where
    c: "calls s' = calls ?s @ new"
    and h: "heads new = map (invoked_with (Number 1) (Number 2) (Number 3))
          ([Function 0] @ [Function 1])"
    and u: "\<forall>m r. emit m ?code ''e'' [Number 1, Number 2, Number 3] ?s = Some r
          \<longrightarrow> r = (Abrupt (Thrown (String ''boom'')), s')"
    by blast
  from u e have "s' = ?s'" by blast
  with c have c': "?log = [] @ new" by (simp add: on_def new_emitter_def)
  from h have h': "heads new = [(Function 0, Undefined, [Number 1, Number 2, Number 3]),
                   (Function 1, Undefined, [Number 1, Number 2, Number 3])]"
    by (simp add: invoked_with_def)
  show ?thesis
    by (intro conjI exI[of _ new]) (rule r q0 t e c' h')+
qed

subsection \<open>A listener registered more than once\<close>

lemma count_registrations_for:
  "count_list (registrations_for e regs) f = count_list regs (e, f)"
  by (induction regs) (auto simp: registrations_for_def prod_eq_iff)

lemma count_callee:
  "length (filter (\<lambda>i. callee i = f) (map (\<lambda>l. Invocation l t as sub) ls)) = count_list ls f"
  by (induction ls) auto

text \<open>
  Claim C5. Let \<open>regs\<close> be any sequence of calls of \<open>on\<close> made in any state \<open>s0\<close>, all listeners
  of \<open>eventName\<close> being functions with quiet bodies. Then \<open>emit(eventName, a, b, c)\<close> completes
  normally and invokes every value \<open>f\<close> as many times as \<open>f\<close> occurs in the array \<open>s0\<close> had for
  \<open>eventName\<close> plus the number of calls \<open>on(eventName, f)\<close> in \<open>regs\<close>: once per registration,
  so twice after two registrations of \<open>f\<close> on a fresh emitter. No amount of fuel gives
  \<open>emit\<close> another result.
\<close>

theorem emit_invokes_once_per_registration:
  assumes "\<forall>l \<in> set (registered (listeners s0) e @ registrations_for e regs).
      quiet_listener code [a, b, c] l"
  shows "\<exists>n s' new. emit n code e [a, b, c] (on_all regs s0) = Some (Normal, s') \<and>
           calls s' = calls (on_all regs s0) @ new \<and>
           (\<forall>f. length (filter (\<lambda>i. callee i = f) new)
                 = count_list (registered (listeners s0) e) f + count_list regs (e, f)) \<and>
           (\<forall>m r. emit m code e [a, b, c] (on_all regs s0) = Some r \<longrightarrow> r = (Normal, s'))"
proof -
  let ?s = "on_all regs s0"
  let ?L = "registered (listeners s0) e @ registrations_for e regs"
  have L: "registered (listeners ?s) e = ?L"
    by (simp add: listeners_on_all registered_register_all)
  with assms have "\<forall>l \<in> set (registered (listeners ?s) e).
      quiet_listener code [parameter [a, b, c] 0, parameter [a, b, c] 1, parameter [a, b, c] 2] l"
    by (simp add: parameters_triple)
  from emit_quiet[OF this] obtain n s' where
    e: "emit n code e [a, b, c] ?s = Some (Normal, s')"
    and c: "calls s' = calls ?s @ map (\<lambda>l. Invocation l Undefined [a, b, c] []) ?L"
    by (auto simp: parameters_triple L)
  have "\<forall>f. length (filter (\<lambda>i. callee i = f) (map (\<lambda>l. Invocation l Undefined [a, b, c] []) ?L))
      = count_list (registered (listeners s0) e) f + count_list regs (e, f)"
    by (simp only: count_callee) (simp add: count_registrations_for)
  moreover have "\<forall>m r. emit m code e [a, b, c] ?s = Some r \<longrightarrow> r = (Normal, s')"
    using emit_deterministic[OF _ e] by blast
  ultimately show ?thesis using e c by blast
qed

theorem emit_invokes_once_per_registration_witness:
  "quiet_listener (\<lambda>i t args. Return :: unit prog) [Number 1, Number 2, Number 3]
     (Function 0) \<and>
   emit 1 (\<lambda>i t args. Return) ''e'' [Number 1, Number 2, Number 3]
     (on ''e'' (Function 0) (on ''e'' (Function 0) (new_emitter ())))
   = Some (Normal,
       \<lparr>listeners = [(''e'', [Function 0, Function 0])], world = (),
        calls = [Invocation (Function 0) Undefined [Number 1, Number 2, Number 3] [],
                 Invocation (Function 0) Undefined [Number 1, Number 2, Number 3] []]\<rparr>) \<and>
   (\<exists>new. [Invocation (Function 0) Undefined [Number 1, Number 2, Number 3] [],
           Invocation (Function 0) Undefined [Number 1, Number 2, Number 3] []] = [] @ new \<and>
      length (filter (\<lambda>i. callee i = Function 0) new) = 2)"
proof -
  let ?code = "\<lambda>(i::nat) (t::jsval) (args::jsval list). (Return :: unit prog)"
  let ?regs = "[(''e'', Function 0), (''e'', Function 0)]"
  let ?log = "[Invocation (Function 0) Undefined [Number 1, Number 2, Number 3] [],
               Invocation (Function 0) Undefined [Number 1, Number 2, Number 3] []]"
  let ?s' = "\<lparr>listeners = [(''e'', [Function 0, Function 0])], world = (), calls = ?log\<rparr>"
  have q: "quiet_listener ?code [Number 1, Number 2, Number 3] (Function 0)"
    by (simp add: quiet_listener_def quiet.intros)
  then have "\<forall>l \<in> set (registered (listeners (new_emitter ())) ''e'' @
      registrations_for ''e'' ?regs). quiet_listener ?code [Number 1, Number 2, Number 3] l"
    by (simp add: registrations_for_def registered_def new_emitter_def)
  from emit_invokes_once_per_registration[OF this] obtain s' new where
    c: "calls s' = calls (on_all ?regs (new_emitter ())) @ new"
    and k: "length (filter (\<lambda>i. callee i = Function 0) new)
       = count_list (registered (listeners (new_emitter ())) ''e'') (Function 0)
         + count_list ?regs (''e'', Function 0)"
    and u: "\<forall>m r. emit m ?code ''e'' [Number 1, Number 2, Number 3]
          (on_all ?regs (new_emitter ())) = Some r \<longrightarrow> r = (Normal, s')"
    by blast
  have e: "emit 1 ?code ''e'' [Number 1, Number 2, Number 3]
      (on ''e'' (Function 0) (on ''e'' (Function 0) (new_emitter ()))) = Some (Normal, ?s')"
    by (simp add: emit.simps forEach.simps call_listener.simps on_def register_def
        has_property_def new_emitter_def Let_def parameter_def)
  then have "emit 1 ?code ''e'' [Number 1, Number 2, Number 3] (on_all ?regs (new_emitter ()))
      = Some (Normal, ?s')" by simp
  with u have "s' = ?s'" by blast
  with c have c': "?log = [] @ new" by (simp add: on_def new_emitter_def)
  from k have k': "length (filter (\<lambda>i. callee i = Function 0) new) = 2"
    by (simp add: registered_def new_emitter_def)
  show ?thesis
    by (intro conjI exI[of _ new]) (rule q e c' k')+
qed

subsection \<open>Fewer than three arguments\<close>

lemma parameters_padded:
  assumes "length actuals \<le> 3"
  shows "[parameter actuals 0, parameter actuals 1, parameter actuals 2]
           = actuals @ replicate (3 - length actuals) Undefined"
  using assms
  by (auto simp: parameter_def numeral_3_eq_3 le_Suc_eq length_Suc_conv)

text \<open>
  Claim C6. When \<open>emit\<close> is called with fewer than three arguments after the event name,
  every listener is still called with three: the arguments given, followed by \<open>undefined\<close>
  for each missing one. Here \<open>regs\<close> is any sequence of calls of \<open>on\<close> made in any state
  \<open>s0\<close>, and the listeners of \<open>eventName\<close> are functions with quiet bodies; \<open>emit\<close> completes
  normally and invokes them once each, in the order of registration, and no amount of fuel
  gives it another result. The instance below is the scenario of the claim: \<open>on("Program", f)\<close>, \<open>on("Program", g)\<close>, \<open>emit("Program", nodeX)\<close>
  calls \<open>f(nodeX, undefined, undefined)\<close> and then \<open>g(nodeX, undefined, undefined)\<close>.
\<close>

theorem emit_pads_missing_arguments:
  assumes "length actuals < 3"
    and "args = actuals @ replicate (3 - length actuals) Undefined"
    and "\<forall>l \<in> set (registered (listeners s0) e @ registrations_for e regs).
           quiet_listener code args l"
  shows "length args = 3 \<and>
         (\<exists>n s' new. emit n code e actuals (on_all regs s0) = Some (Normal, s') \<and>
            calls s' = calls (on_all regs s0) @ new \<and>
            heads new = map (\<lambda>l. (l, Undefined, args))
                          (registered (listeners s0) e @ registrations_for e regs) \<and>
            (\<forall>m r. emit m code e actuals (on_all regs s0) = Some r \<longrightarrow> r = (Normal, s')))"
proof -
  let ?s = "on_all regs s0"
  let ?L = "registered (listeners s0) e @ registrations_for e regs"
  from assms(1,2) parameters_padded[of actuals]
  have args: "[parameter actuals 0, parameter actuals 1, parameter actuals 2] = args"
    by simp
  have L: "registered (listeners ?s) e = ?L"
    by (simp add: listeners_on_all registered_register_all)
  have "\<forall>l \<in> set (registered (listeners ?s) e).
      quiet_listener code [parameter actuals 0, parameter actuals 1, parameter actuals 2] l"
    unfolding L args by (rule assms(3))
  from emit_quiet[OF this] obtain n s' where
    e: "emit n code e actuals ?s = Some (Normal, s')"
    and c: "calls s' = calls ?s @ map (\<lambda>l. Invocation l Undefined
               [parameter actuals 0, parameter actuals 1, parameter actuals 2] []) ?L"
    unfolding L by blast
  have "heads (map (\<lambda>l. Invocation l Undefined
               [parameter actuals 0, parameter actuals 1, parameter actuals 2] []) ?L)
        = map (\<lambda>l. (l, Undefined, args)) ?L"
    unfolding args by (simp add: heads_def)
  moreover from assms(1,2) have "length args = 3" by simp
  moreover have "\<forall>m r. emit m code e actuals ?s = Some r \<longrightarrow> r = (Normal, s')"
    using emit_deterministic[OF _ e] by blast
  ultimately show ?thesis using e c by blast
qed

theorem emit_pads_missing_arguments_witness:
  "length [Object 7] < 3 \<and>
   quiet_listener (\<lambda>i t args. Return :: unit prog) [Object 7, Undefined, Undefined]
     (Function 0) \<and>
   quiet_listener (\<lambda>i t args. Return :: unit prog) [Object 7, Undefined, Undefined]
     (Function 1) \<and>
   emit 1 (\<lambda>i t args. Return) ''Program'' [Object 7]
     (on ''Program'' (Function 1) (on ''Program'' (Function 0) (new_emitter ())))
   = Some (Normal,
       \<lparr>listeners = [(''Program'', [Function 0, Function 1])], world = (),
        calls = [Invocation (Function 0) Undefined [Object 7, Undefined, Undefined] [],
                 Invocation (Function 1) Undefined [Object 7, Undefined, Undefined] []]\<rparr>) \<and>
   (\<exists>new. [Invocation (Function 0) Undefined [Object 7, Undefined, Undefined] [],
           Invocation (Function 1) Undefined [Object 7, Undefined, Undefined] []] = [] @ new \<and>
      heads new = [(Function 0, Undefined, [Object 7, Undefined, Undefined]),
                   (Function 1, Undefined, [Object 7, Undefined, Undefined])])"
proof -
  let ?code = "\<lambda>(i::nat) (t::jsval) (args::jsval list). (Return :: unit prog)"
  let ?regs = "[(''Program'', Function 0), (''Program'', Function 1)]"
  let ?log = "[Invocation (Function 0) Undefined [Object 7, Undefined, Undefined] [],
               Invocation (Function 1) Undefined [Object 7, Undefined, Undefined] []]"
  let ?s' = "\<lparr>listeners = [(''Program'', [Function 0, Function 1])], world = (),
        calls = ?log\<rparr>"
  have len: "length [Object 7] < 3" by simp
  have args: "[Object 7, Undefined, Undefined] = [Object 7] @ replicate (3 - length [Object 7]) Undefined"
    by (simp add: numeral_3_eq_3)
  have q0: "quiet_listener ?code [Object 7, Undefined, Undefined] (Function 0)"
    and q1: "quiet_listener ?code [Object 7, Undefined, Undefined] (Function 1)"
    by (simp_all add: quiet_listener_def quiet.intros)
  then have q: "\<forall>l \<in> set (registered (listeners (new_emitter ())) ''Program'' @
      registrations_for ''Program'' ?regs). quiet_listener ?code [Object 7, Undefined, Undefined] l"
    by (simp add: registrations_for_def registered_def new_emitter_def)
  from emit_pads_missing_arguments[OF len args q] obtain s' new where
    c: "calls s' = calls (on_all ?regs (new_emitter ())) @ new"
    and h: "heads new = map (\<lambda>l. (l, Undefined, [Object 7, Undefined, Undefined]))
       (registered (listeners (new_emitter ())) ''Program'' @ registrations_for ''Program'' ?regs)"
    and u: "\<forall>m r. emit m ?code ''Program'' [Object 7] (on_all ?regs (new_emitter ())) = Some r
          \<longrightarrow> r = (Normal, s')"
    by blast
  have e: "emit 1 ?code ''Program'' [Object 7]
      (on ''Program'' (Function 1) (on ''Program'' (Function 0) (new_emitter ())))
      = Some (Normal, ?s')"
    by (simp add: emit.simps forEach.simps call_listener.simps on_def register_def
        has_property_def new_emitter_def Let_def parameter_def)
  then have "emit 1 ?code ''Program'' [Object 7] (on_all ?regs (new_emitter ()))
      = Some (Normal, ?s')" by simp
  with u have "s' = ?s'" by blast
  with c have c': "?log = [] @ new" by (simp add: on_def new_emitter_def)
  from h have h': "heads new = [(Function 0, Undefined, [Object 7, Undefined, Undefined]),
                   (Function 1, Undefined, [Object 7, Undefined, Undefined])]"
    by (simp add: registered_def registrations_for_def new_emitter_def)
  show ?thesis
    by (intro conjI exI[of _ new]) (rule len q0 q1 e c' h')+
qed

subsection \<open>The registry only grows\<close>

lemma keys_set_property:
  "map fst (set_property e v reg) = (if has_property e reg then map fst reg else map fst reg @ [e])"
  by (induction reg) (force simp: has_property_def)+

lemma keys_register:
  "map fst (register e l reg) = (if has_property e reg then map fst reg else map fst reg @ [e])"
  by (auto simp: register_def keys_set_property has_property_iff split: option.splits)

lemma grows_refl: "grows reg reg"
  by (simp add: grows_def)

lemma grows_trans:
  assumes "grows reg reg1" and "grows reg1 reg2"
  shows "grows reg reg2"
  unfolding grows_def
proof (intro conjI ballI)
  from assms show "prefix (map fst reg) (map fst reg2)"
    by (auto simp: grows_def)
next
  fix e assume e: "e \<in> set (map fst reg)"
  with assms(1) have p1: "prefix (registered reg e) (registered reg1 e)"
    unfolding grows_def by blast
  from assms(1) have "set (map fst reg) \<subseteq> set (map fst reg1)"
    unfolding grows_def by (blast dest: set_mono_prefix)
  with e have "e \<in> set (map fst reg1)" by blast
  with assms(2) have "prefix (registered reg1 e) (registered reg2 e)"
    unfolding grows_def by blast
  with p1 show "prefix (registered reg e) (registered reg2 e)" by simp
qed

lemma grows_register: "grows reg (register e l reg)"
  by (simp add: grows_def keys_register registered_register)

lemma grows_register_all: "grows reg (register_all regs reg)"
proof (induction regs arbitrary: reg)
  case Nil
  show ?case by (simp add: grows_refl)
next
  case (Cons r regs)
  from grows_register[of reg "fst r" "snd r"] Cons[of "register (fst r) (snd r) reg"]
  show ?case by (simp add: grows_trans)
qed

text \<open>
  Claim C7. Each of the three methods leaves the registry grown, in the sense of \<open>grows\<close>:
  the keys it had are still there, in the same order and before any new key, and the array of
  each of them is the old array followed by the listeners added since. For \<open>emit\<close> this holds
  for every code of the listeners, whatever they register or emit themselves, and for every
  completion, normal or abrupt.
\<close>

theorem registry_only_grows:
  "grows (listeners s) (listeners (on eventName listener s)) \<and>
   (\<forall>n code e actuals r s'. emit n code e actuals s = Some (r, s')
      \<longrightarrow> grows (listeners s) (listeners s')) \<and>
   grows (listeners s) (listeners (snd (eventNames s)))"
proof (intro conjI allI impI)
  show "grows (listeners s) (listeners (on eventName listener s))"
    by (simp add: on_def grows_register)
next
  fix n code e actuals r s'
  assume "emit n code e actuals s = Some (r, s')"
  from emit_registry[OF this] show "grows (listeners s) (listeners s')"
    by (auto simp: grows_register_all)
next
  show "grows (listeners s) (listeners (snd (eventNames s)))"
    by (simp add: eventNames_def grows_refl)
qed

theorem registry_only_grows_witness:
  "grows (listeners (on ''a'' (Function 0) (new_emitter ())))
     (listeners (on ''a'' (Function 1) (on ''a'' (Function 0) (new_emitter ())))) \<and>
   emit 2 (\<lambda>i t args. CallOn ''b'' (Function 1) Return) ''a'' []
     (on ''a'' (Function 0) (new_emitter ()))
   = Some (Normal, \<lparr>listeners = [(''a'', [Function 0]), (''b'', [Function 1])], world = (),
        calls = [Invocation (Function 0) Undefined [Undefined, Undefined, Undefined] []]\<rparr>) \<and>
   grows (listeners (on ''a'' (Function 0) (new_emitter ())))
     [(''a'', [Function 0]), (''b'', [Function 1])] \<and>
   grows (listeners (on ''a'' (Function 0) (new_emitter ())))
     (listeners (snd (eventNames (on ''a'' (Function 0) (new_emitter ())))))"
proof -
  let ?s = "on ''a'' (Function 0) (new_emitter ())"
  let ?code = "\<lambda>(i::nat) (t::jsval) (args::jsval list). CallOn ''b'' (Function 1) (Return :: unit prog)"
  let ?s' = "\<lparr>listeners = [(''a'', [Function 0]), (''b'', [Function 1])], world = (),
        calls = [Invocation (Function 0) Undefined [Undefined, Undefined, Undefined] []]\<rparr>"
  have e: "emit 2 ?code ''a'' [] ?s = Some (Normal, ?s')"
    by (simp add: emit.simps forEach.simps call_listener.simps on_def register_def
        has_property_def new_emitter_def Let_def parameter_def numeral_2_eq_2)
  note g = registry_only_grows[of ?s "''a''" "Function 1"]
  from g have g1: "grows (listeners ?s) (listeners (on ''a'' (Function 1) ?s))" by blast
  from g e have g2: "grows (listeners ?s) (listeners ?s')" by blast
  from g have g3: "grows (listeners ?s) (listeners (snd (eventNames ?s)))" by blast
  from g2 have g2': "grows (listeners ?s) [(''a'', [Function 0]), (''b'', [Function 1])]" by simp
  show ?thesis by (intro conjI) (rule g1 e g2' g3)+
qed

subsection \<open>What a listener is called with\<close>

lemma heads_invoked_with:
  assumes "heads new = map (invoked_with a b c) xs"
  shows "\<forall>i \<in> set new. this_value i = Undefined \<and> arguments i = [a, b, c]"
proof
  fix i assume "i \<in> set new"
  then have "(callee i, this_value i, arguments i) \<in> set (heads new)"
    by (simp add: heads_def)
  with assms obtain l where "(callee i, this_value i, arguments i) = invoked_with a b c l"
    by auto
  then show "this_value i = Undefined \<and> arguments i = [a, b, c]"
    by (simp add: invoked_with_def)
qed

lemma emit_receivers:
  assumes "emit n code e actuals s = Some (r, s')"
  shows "\<exists>new. calls s' = calls s @ new \<and>
           (\<forall>i \<in> set (concat (map all_invocations new)).
              this_value i = Undefined \<and> length (arguments i) = 3)"
proof -
  let ?P = "\<lambda>new. \<forall>i \<in> set (concat (map all_invocations new)).
      this_value i = Undefined \<and> length (arguments i) = 3"
  let ?R = "\<lambda>(s :: 'a state) (s' :: 'a state). \<exists>new. calls s' = calls s @ new \<and> ?P new"
  have rfl: "?R s s" for s
    by (rule exI[of _ "[]"]) simp
  have trans: "?R s s2" if "?R s s1" "?R s1 s2" for s s1 s2
  proof -
    from that obtain n1 n2 where "calls s1 = calls s @ n1" "?P n1" "calls s2 = calls s1 @ n2" "?P n2"
      by blast
    then have "calls s2 = calls s @ (n1 @ n2) \<and> ?P (n1 @ n2)" by auto
    then show ?thesis by blast
  qed
  have on: "?R s (on e l s)" for e l s
    by (rule exI[of _ "[]"]) (simp add: on_def)
  have upd: "?R s (s\<lparr>world := w\<rparr>)" for s w
    by (rule exI[of _ "[]"]) simp
  have wrap: "?R s (s'\<lparr>calls := calls s @ [Invocation l Undefined [a, b, c] (calls s')]\<rparr>)"
    if "?R (s\<lparr>calls := []\<rparr>) s'" for s s' l a b c
  proof -
    from that have "?P (calls s')" by simp
    then have "?P [Invocation l Undefined [a, b, c] (calls s')]" by simp
    then show ?thesis by (intro exI[of _ "[Invocation l Undefined [a, b, c] (calls s')]"]) simp
  qed
  show ?thesis
    by (rule exec_relation(4)[where R = ?R, OF rfl trans on upd wrap assms])
qed

text \<open>
  Claim C8. Whatever the listeners are and do, every invocation made during a call of
  \<open>emit\<close>, directly or inside a listener that emits again, has the \<open>this\<close> value \<open>undefined\<close> and
  exactly three arguments, and the invocations made by the call itself have as arguments the
  parameters \<open>a\<close>, \<open>b\<close>, \<open>c\<close> of that call. Neither depends on the registry or on the other
  listeners: the body that runs for function \<open>i\<close> is \<open>code i Undefined [a, b, c]\<close>. What a
  function reaches through variables of its own closure is outside this statement.
\<close>

theorem listeners_called_without_receiver:
  assumes "emit n code e actuals s = Some (r, s')"
  shows "\<exists>new. calls s' = calls s @ new \<and>
           (\<forall>i \<in> set (concat (map all_invocations new)).
              this_value i = Undefined \<and> length (arguments i) = 3) \<and>
           (\<forall>i \<in> set new.
              arguments i = [parameter actuals 0, parameter actuals 1, parameter actuals 2])"
proof -
  from emit_receivers[OF assms] obtain new where
    n: "calls s' = calls s @ new"
    "\<forall>i \<in> set (concat (map all_invocations new)).
       this_value i = Undefined \<and> length (arguments i) = 3" by blast
  from emit_direct[OF assms] n(1) obtain m where
    "heads new = map (invoked_with (parameter actuals 0) (parameter actuals 1)
       (parameter actuals 2)) (take m (registered (listeners s) e))" by auto
  from heads_invoked_with[OF this] n show ?thesis by blast
qed

theorem listeners_called_without_receiver_witness:
  "emit 3 (\<lambda>i t args. if i = 0 then CallEmit ''b'' args (\<lambda>r. Return) else Return) ''a''
     [Number 1] (on ''b'' (Function 1) (on ''a'' (Function 0) (new_emitter ())))
   = Some (Normal,
       \<lparr>listeners = [(''a'', [Function 0]), (''b'', [Function 1])], world = (),
        calls = [Invocation (Function 0) Undefined [Number 1, Undefined, Undefined]
                  [Invocation (Function 1) Undefined [Number 1, Undefined, Undefined] []]]\<rparr>) \<and>
   (\<exists>new. [Invocation (Function 0) Undefined [Number 1, Undefined, Undefined]
                  [Invocation (Function 1) Undefined [Number 1, Undefined, Undefined] []]]
             = [] @ new \<and>
      (\<forall>i \<in> set (concat (map all_invocations new)).
         this_value i = Undefined \<and> length (arguments i) = 3) \<and>
      (\<forall>i \<in> set new. arguments i = [Number 1, Undefined, Undefined]))"
proof -
  let ?code = "\<lambda>(i::nat) (t::jsval) (args::jsval list).
      if i = 0 then CallEmit ''b'' args (\<lambda>r. Return) else (Return :: unit prog)"
  let ?s = "on ''b'' (Function 1) (on ''a'' (Function 0) (new_emitter ()))"
  let ?log = "[Invocation (Function 0) Undefined [Number 1, Undefined, Undefined]
                  [Invocation (Function 1) Undefined [Number 1, Undefined, Undefined] []]]"
  let ?s' = "\<lparr>listeners = [(''a'', [Function 0]), (''b'', [Function 1])], world = (),
        calls = ?log\<rparr>"
  have e: "emit 3 ?code ''a'' [Number 1] ?s = Some (Normal, ?s')"
    by (simp add: emit.simps forEach.simps call_listener.simps on_def register_def
        has_property_def new_emitter_def Let_def parameter_def numeral_3_eq_3)
  from listeners_called_without_receiver[OF e] obtain new where
    "calls ?s' = calls ?s @ new"
    "\<forall>i \<in> set (concat (map all_invocations new)).
       this_value i = Undefined \<and> length (arguments i) = 3"
    "\<forall>i \<in> set new. arguments i = [parameter [Number 1] 0, parameter [Number 1] 1,
       parameter [Number 1] 2]"
    by blast
  then have r: "?log = [] @ new"
    "\<forall>i \<in> set (concat (map all_invocations new)).
       this_value i = Undefined \<and> length (arguments i) = 3"
    "\<forall>i \<in> set new. arguments i = [Number 1, Undefined, Undefined]"
    by (simp_all add: on_def new_emitter_def parameter_def)
  show ?thesis
    by (intro conjI exI[of _ new]) (rule e r)+
qed

subsection \<open>Registering during an emit\<close>

text \<open>
  Claim C9. Take any call of \<open>emit\<close> that returns, with any listeners. The array of
  \<open>eventName\<close> afterwards is the array at the start of the call followed by the listeners
  \<open>added\<close> to it during the call. The invocations the call made itself are those of an initial
  segment of the array at the start (all of it unless a call completed abruptly): no position
  added during the call is visited. A later \<open>emit\<close> of the same name that completes normally
  invokes the old listeners and then the added ones, and it does complete normally when all
  of these are functions with quiet bodies.
\<close>

theorem listener_added_during_emit:
  assumes "emit n code e actuals s = Some (r, s')"
  shows "\<exists>new m added.
           calls s' = calls s @ new \<and>
           m \<le> length (registered (listeners s) e) \<and>
           heads new = map (invoked_with (parameter actuals 0) (parameter actuals 1)
                              (parameter actuals 2)) (take m (registered (listeners s) e)) \<and>
           (r = Normal \<longrightarrow> m = length (registered (listeners s) e)) \<and>
           registered (listeners s') e = registered (listeners s) e @ added \<and>
           (\<forall>n2 a2 b2 c2 s2. emit n2 code e [a2, b2, c2] s' = Some (Normal, s2) \<longrightarrow>
              (\<exists>new2. calls s2 = calls s' @ new2 \<and>
                 heads new2 = map (invoked_with a2 b2 c2) (registered (listeners s) e @ added))) \<and>
           (\<forall>a2 b2 c2.
              (\<forall>l \<in> set (registered (listeners s) e @ added). quiet_listener code [a2, b2, c2] l) \<longrightarrow>
              (\<exists>n2 s2 new2. emit n2 code e [a2, b2, c2] s' = Some (Normal, s2) \<and>
                 calls s2 = calls s' @ new2 \<and>
                 heads new2 = map (invoked_with a2 b2 c2) (registered (listeners s) e @ added)))"
proof -
  from emit_direct[OF assms] obtain new m added where
    d: "calls s' = calls s @ new" "m \<le> length (registered (listeners s) e)"
    "heads new = map (invoked_with (parameter actuals 0) (parameter actuals 1)
       (parameter actuals 2)) (take m (registered (listeners s) e))"
    "registered (listeners s') e = registered (listeners s) e @ added"
    "r = Normal \<longrightarrow> m = length (registered (listeners s) e)" by blast
  have later: "\<exists>new2. calls s2 = calls s' @ new2 \<and>
      heads new2 = map (invoked_with a2 b2 c2) (registered (listeners s) e @ added)"
    if "emit n2 code e [a2, b2, c2] s' = Some (Normal, s2)" for n2 a2 b2 c2 s2
    using emit_direct[OF that] d(4) by (auto simp: parameters_triple)
  have total: "\<exists>n2 s2 new2. emit n2 code e [a2, b2, c2] s' = Some (Normal, s2) \<and>
      calls s2 = calls s' @ new2 \<and>
      heads new2 = map (invoked_with a2 b2 c2) (registered (listeners s) e @ added)"
    if q: "\<forall>l \<in> set (registered (listeners s) e @ added). quiet_listener code [a2, b2, c2] l"
    for a2 b2 c2
  proof -
    from q d(4) have "\<forall>l \<in> set (registered (listeners s') e).
        quiet_listener code [parameter [a2, b2, c2] 0, parameter [a2, b2, c2] 1,
          parameter [a2, b2, c2] 2] l"
      by (simp add: parameters_triple)
    from emit_quiet[OF this] obtain n2 s2 where
      "emit n2 code e [a2, b2, c2] s' = Some (Normal, s2)"
      "calls s2 = calls s' @ map (\<lambda>l. Invocation l Undefined [a2, b2, c2] [])
          (registered (listeners s) e @ added)"
      by (auto simp: parameters_triple d(4))
    with heads_map_Invocation[of a2 b2 c2 "registered (listeners s) e @ added"]
    show ?thesis by blast
  qed
  from d later total show ?thesis by blast
qed

theorem listener_added_during_emit_witness:
  "emit 2 (\<lambda>i t args. if i = 0 then CallOn ''e'' (Function 1) Return else Return) ''e'' []
     (on ''e'' (Function 0) (new_emitter ()))
   = Some (Normal,
       \<lparr>listeners = [(''e'', [Function 0, Function 1])], world = (),
        calls = [Invocation (Function 0) Undefined [Undefined, Undefined, Undefined] []]\<rparr>) \<and>
   quiet_listener (\<lambda>i t args. if i = 0 then CallOn ''e'' (Function 1) Return
                                else (Return :: unit prog))
     [Number 1, Number 2, Number 3] (Function 0) \<and>
   quiet_listener (\<lambda>i t args. if i = 0 then CallOn ''e'' (Function 1) Return
                                else (Return :: unit prog))
     [Number 1, Number 2, Number 3] (Function 1) \<and>
   (\<exists>n2 s2 new2.
      emit n2 (\<lambda>i t args. if i = 0 then CallOn ''e'' (Function 1) Return else Return) ''e''
        [Number 1, Number 2, Number 3]
        \<lparr>listeners = [(''e'', [Function 0, Function 1])], world = (),
         calls = [Invocation (Function 0) Undefined [Undefined, Undefined, Undefined] []]\<rparr>
        = Some (Normal, s2) \<and>
      calls s2 = [Invocation (Function 0) Undefined [Undefined, Undefined, Undefined] []] @ new2 \<and>
      heads new2 = [(Function 0, Undefined, [Number 1, Number 2, Number 3]),
                    (Function 1, Undefined, [Number 1, Number 2, Number 3])])"
proof -
  let ?code = "\<lambda>(i::nat) (t::jsval) (args::jsval list).
      if i = 0 then CallOn ''e'' (Function 1) Return else (Return :: unit prog)"
  let ?s = "on ''e'' (Function 0) (new_emitter ())"
  let ?log = "[Invocation (Function 0) Undefined [Undefined, Undefined, Undefined] []]"
  let ?s' = "\<lparr>listeners = [(''e'', [Function 0, Function 1])], world = (), calls = ?log\<rparr>"
  have e: "emit 2 ?code ''e'' [] ?s = Some (Normal, ?s')"
    by (simp add: emit.simps forEach.simps call_listener.simps on_def register_def
        has_property_def new_emitter_def Let_def parameter_def numeral_2_eq_2)
  have q0: "quiet_listener ?code [Number 1, Number 2, Number 3] (Function 0)"
    and q1: "quiet_listener ?code [Number 1, Number 2, Number 3] (Function 1)"
    by (simp_all add: quiet_listener_def quiet.intros)
  have rs: "registered (listeners ?s) ''e'' = [Function 0]"
    and rs': "registered (listeners ?s') ''e'' = [Function 0, Function 1]"
    by (simp_all add: registered_def on_def register_def has_property_def new_emitter_def)
  from listener_added_during_emit[OF e] obtain added where
    a: "registered (listeners ?s') ''e'' = registered (listeners ?s) ''e'' @ added"
    and t: "\<forall>a2 b2 c2.
       (\<forall>l \<in> set (registered (listeners ?s) ''e'' @ added). quiet_listener ?code [a2, b2, c2] l) \<longrightarrow>
       (\<exists>n2 s2 new2. emit n2 ?code ''e'' [a2, b2, c2] ?s' = Some (Normal, s2) \<and>
          calls s2 = calls ?s' @ new2 \<and>
          heads new2 = map (invoked_with a2 b2 c2) (registered (listeners ?s) ''e'' @ added))"
    by blast
  from a rs rs' have added: "added = [Function 1]" by simp
  from q0 q1 rs added have "\<forall>l \<in> set (registered (listeners ?s) ''e'' @ added).
      quiet_listener ?code [Number 1, Number 2, Number 3] l" by simp
  with t obtain n2 s2 new2 where
    "emit n2 ?code ''e'' [Number 1, Number 2, Number 3] ?s' = Some (Normal, s2)"
    "calls s2 = calls ?s' @ new2"
    "heads new2 = map (invoked_with (Number 1) (Number 2) (Number 3))
        (registered (listeners ?s) ''e'' @ added)"
    by blast
  then have r: "emit n2 ?code ''e'' [Number 1, Number 2, Number 3] ?s' = Some (Normal, s2)"
    "calls s2 = ?log @ new2"
    "heads new2 = [(Function 0, Undefined, [Number 1, Number 2, Number 3]),
                    (Function 1, Undefined, [Number 1, Number 2, Number 3])]"
    by (simp_all add: rs added invoked_with_def)
  show ?thesis
    by (intro conjI exI[of _ n2] exI[of _ s2] exI[of _ new2]) (rule e q0 q1 r)+
qed

subsection \<open>The names \<open>eventNames\<close> returns\<close>

lemma map_snd_index_keys: "map snd (index_keys ks) = filter (\<lambda>k. array_index k \<noteq> None) ks"
  by (induction ks) (auto simp: index_keys_def List.map_filter_def)

lemma set_own_property_keys: "set (own_property_keys reg) = set (map fst reg)"
proof -
  have "set (map snd (sort_key fst (index_keys (map fst reg))))
      = set (map snd (index_keys (map fst reg)))" by simp
  then show ?thesis
    by (auto simp: own_property_keys_def Let_def map_snd_index_keys)
qed

lemma distinct_own_property_keys:
  assumes "distinct (map fst reg)"
  shows "distinct (own_property_keys reg)"
proof -
  let ?ks = "map fst reg"
  have "distinct (map snd (index_keys ?ks))"
    using assms by (simp add: map_snd_index_keys)
  then have "distinct (map snd (sort_key fst (index_keys ?ks)))"
    by (simp add: distinct_map)
  moreover have "set (map snd (sort_key fst (index_keys ?ks))) = {k \<in> set ?ks. array_index k \<noteq> None}"
    using map_snd_index_keys[of ?ks] by (metis set_filter set_map set_sort)
  ultimately show ?thesis
    using assms by (auto simp: own_property_keys_def Let_def)
qed

lemma set_first_occurrences: "set (first_occurrences xs) = set xs"
  by (induction xs) auto

lemma distinct_first_occurrences: "distinct (first_occurrences xs)"
  by (induction xs) (auto simp: set_first_occurrences)

lemma keys_register_all:
  "map fst (register_all regs reg)
     = map fst reg @ filter (\<lambda>k. k \<notin> set (map fst reg)) (first_occurrences (map fst regs))"
proof (induction regs arbitrary: reg)
  case Nil
  show ?case by simp
next
  case (Cons r regs)
  show ?case
    by (auto simp: Cons.IH keys_register has_property_def intro!: filter_cong)
qed

lemma index_keys_empty: "\<forall>k \<in> set ks. array_index k = None \<Longrightarrow> index_keys ks = []"
  by (induction ks) (auto simp: index_keys_def List.map_filter_def)

lemma reachable_registrations:
  "reachable code s \<Longrightarrow> \<exists>regs. listeners s = register_all regs []"
proof (induction rule: reachable.induct)
  case (reachable_new w)
  have "listeners (new_emitter w) = register_all [] []" by (simp add: new_emitter_def)
  then show ?case by blast
next
  case (reachable_on s eventName listener)
  then obtain regs where "listeners s = register_all regs []" by blast
  then have "listeners (on eventName listener s) = register_all (regs @ [(eventName, listener)]) []"
    by (simp add: on_def register_all_append)
  then show ?case by blast
next
  case (reachable_emit s n eventName actuals r s')
  from emit_registry[OF reachable_emit.hyps(2)] reachable_emit.IH obtain regs1 regs2 where
    "listeners s' = register_all regs2 (listeners s)" "listeners s = register_all regs1 []" by blast
  then have "listeners s' = register_all (regs1 @ regs2) []" by (simp add: register_all_append)
  then show ?case by blast
next
  case (reachable_world s w)
  then show ?case by simp
qed

text \<open>
  Claim C4, as the code has it. Let \<open>regs\<close> be the registrations made so far, by callers
  and by listeners (every reachable state has such a list, \<open>reachable_registrations\<close>), and
  \<open>ks\<close> the event names among them in the order of their first registration. Then
  \<open>eventNames()\<close> returns each registered name once and no other name; the names that are
  array indices come first, in ascending numeric order, and the other names follow in the
  order of their first registration. When no registered name is an array index the result
  is \<open>ks\<close> itself. The state is returned as it was.
\<close>

theorem eventNames_lists_registered_names:
  assumes "listeners s = register_all regs []"
    and "ks = first_occurrences (map fst regs)"
  shows "fst (eventNames s)
           = map snd (sort_key fst (index_keys ks)) @ filter (\<lambda>k. array_index k = None) ks \<and>
         set (fst (eventNames s)) = fst ` set regs \<and>
         distinct (fst (eventNames s)) \<and>
         ((\<forall>k \<in> set ks. array_index k = None) \<longrightarrow> fst (eventNames s) = ks) \<and>
         snd (eventNames s) = s"
proof -
  from assms have keys: "map fst (listeners s) = ks" by (simp add: keys_register_all)
  then have names: "fst (eventNames s)
      = map snd (sort_key fst (index_keys ks)) @ filter (\<lambda>k. array_index k = None) ks"
    by (simp add: eventNames_def own_property_keys_def)
  have "set (fst (eventNames s)) = set ks"
    using keys by (simp add: eventNames_def set_own_property_keys)
  then have set: "set (fst (eventNames s)) = fst ` set regs"
    using assms(2) by (simp add: set_first_occurrences)
  have dist: "distinct (fst (eventNames s))"
    using keys assms(2) distinct_own_property_keys[of "listeners s"]
    by (simp add: eventNames_def distinct_first_occurrences)
  have plain: "fst (eventNames s) = ks" if "\<forall>k \<in> set ks. array_index k = None"
    using that names by (simp add: index_keys_empty)
  have "snd (eventNames s) = s" by (simp add: eventNames_def)
  with names set dist plain show ?thesis by blast
qed

theorem eventNames_lists_registered_names_witness:
  "listeners (on ''x'' (Function 2) (on ''10'' (Function 3) (on ''y'' (Function 1)
       (on ''9'' (Function 4) (on ''x'' (Function 0) (new_emitter ()))))))
     = register_all [(''x'', Function 0), (''9'', Function 4), (''y'', Function 1),
         (''10'', Function 3), (''x'', Function 2)] [] \<and>
   first_occurrences (map fst [(''x'', Function 0), (''9'', Function 4), (''y'', Function 1),
         (''10'', Function 3), (''x'', Function 2)]) = [''x'', ''9'', ''y'', ''10''] \<and>
   fst (eventNames (on ''x'' (Function 2) (on ''10'' (Function 3) (on ''y'' (Function 1)
       (on ''9'' (Function 4) (on ''x'' (Function 0) (new_emitter ())))))))
     = [''9'', ''10'', ''x'', ''y''] \<and>
   listeners (on ''x'' (Function 2) (on ''y'' (Function 1) (on ''x'' (Function 0) (new_emitter ()))))
     = register_all [(''x'', Function 0), (''y'', Function 1), (''x'', Function 2)] [] \<and>
   array_index ''x'' = None \<and> array_index ''y'' = None \<and>
   fst (eventNames (on ''x'' (Function 2) (on ''y'' (Function 1) (on ''x'' (Function 0)
       (new_emitter ())))))
     = [''x'', ''y'']"
proof -
  let ?regs = "[(''x'', Function 0), (''9'', Function 4), (''y'', Function 1),
         (''10'', Function 3), (''x'', Function 2)]"
  let ?s = "on ''x'' (Function 2) (on ''10'' (Function 3) (on ''y'' (Function 1)
       (on ''9'' (Function 4) (on ''x'' (Function 0) (new_emitter ())))))"
  let ?regs2 = "[(''x'', Function 0), (''y'', Function 1), (''x'', Function 2)]"
  let ?s2 = "on ''x'' (Function 2) (on ''y'' (Function 1) (on ''x'' (Function 0) (new_emitter ())))"
  have l: "listeners ?s = register_all ?regs []" by (simp add: on_def new_emitter_def)
  have f: "first_occurrences (map fst ?regs) = [''x'', ''9'', ''y'', ''10'']" by simp
  have l2: "listeners ?s2 = register_all ?regs2 []" by (simp add: on_def new_emitter_def)
  have f2: "first_occurrences (map fst ?regs2) = [''x'', ''y'']" by simp
  have ai: "array_index ''x'' = None" "array_index ''y'' = None"
    "array_index ''9'' = Some 9" "array_index ''10'' = Some 10"
    by (simp_all add: array_index_def digit_value_def)
  from eventNames_lists_registered_names[OF l f[symmetric]]
  have "fst (eventNames ?s) = map snd (sort_key fst (index_keys [''x'', ''9'', ''y'', ''10'']))
      @ filter (\<lambda>k. array_index k = None) [''x'', ''9'', ''y'', ''10'']" by blast
  then have n: "fst (eventNames ?s) = [''9'', ''10'', ''x'', ''y'']"
    by (simp add: index_keys_def List.map_filter_def ai)
  from eventNames_lists_registered_names[OF l2 f2[symmetric]] ai
  have n2: "fst (eventNames ?s2) = [''x'', ''y'']"
    by (simp add: index_keys_def List.map_filter_def)
  show ?thesis by (intro conjI) (rule l f n l2 ai n2)+
qed

text \<open>
  The claim as stated, with the result in first-registration order for all names, fails
  for array indices: after \<open>on("b", f)\<close> and \<open>on("1", g)\<close> the result is \<open>["1", "b"]\<close>.
\<close>

theorem eventNames_not_in_registration_order:
  "fst (eventNames (on ''1'' (Function 1) (on ''b'' (Function 0) (new_emitter ()))))
     = [''1'', ''b''] \<and>
   fst (eventNames (on ''1'' (Function 1) (on ''b'' (Function 0) (new_emitter ()))))
     \<noteq> first_occurrences (map fst [(''b'', Function 0), (''1'', Function 1)])"
  by (simp add: eventNames_def own_property_keys_def index_keys_def array_index_def
      digit_value_def List.map_filter_def on_def register_def has_property_def new_emitter_def)

subsection \<open>No name without listeners\<close>

lemma set_property_nonempty:
  "v \<noteq> [] \<Longrightarrow> list_all (\<lambda>p. snd p \<noteq> []) reg \<Longrightarrow>
   list_all (\<lambda>p. snd p \<noteq> []) (set_property e v reg)"
  by (induction reg) auto

lemma register_nonempty:
  "list_all (\<lambda>p. snd p \<noteq> []) reg \<Longrightarrow> list_all (\<lambda>p. snd p \<noteq> []) (register e l reg)"
  by (simp add: register_def set_property_nonempty split: option.splits)

lemma register_all_nonempty:
  "list_all (\<lambda>p. snd p \<noteq> []) reg \<Longrightarrow> list_all (\<lambda>p. snd p \<noteq> []) (register_all regs reg)"
  by (induction regs arbitrary: reg) (simp_all add: register_nonempty)

lemma reachable_nonempty:
  "reachable code s \<Longrightarrow> list_all (\<lambda>p. snd p \<noteq> []) (listeners s)"
proof (induction rule: reachable.induct)
  case (reachable_new w)
  show ?case by (simp add: new_emitter_def)
next
  case (reachable_on s eventName listener)
  then show ?case by (simp add: on_def register_nonempty)
next
  case (reachable_emit s n eventName actuals r s')
  from emit_registry[OF reachable_emit.hyps(2)] obtain regs where
    "listeners s' = register_all regs (listeners s)" by blast
  with reachable_emit.IH show ?case by (simp add: register_all_nonempty)
next
  case (reachable_world s w)
  then show ?case by simp
qed

lemma get_property_in_set: "get_property e reg = Some arr \<Longrightarrow> (e, arr) \<in> set reg"
  by (induction reg) (auto split: if_splits)

text \<open>
  Claim C10. In every reachable state every property of the registry holds a non-empty
  array, and every name that \<open>eventNames()\<close> returns has at least one listener.
\<close>

theorem registered_names_have_listeners:
  assumes "reachable code s"
  shows "(\<forall>eventName arr. get_property eventName (listeners s) = Some arr \<longrightarrow> arr \<noteq> []) \<and>
         (\<forall>eventName \<in> set (fst (eventNames s)). registered (listeners s) eventName \<noteq> [])"
proof (intro conjI allI impI ballI)
  fix eventName arr
  assume "get_property eventName (listeners s) = Some arr"
  from get_property_in_set[OF this] reachable_nonempty[OF assms] show "arr \<noteq> []"
    by (auto simp: list_all_iff)
next
  fix eventName
  assume "eventName \<in> set (fst (eventNames s))"
  then have "has_property eventName (listeners s)"
    by (simp add: eventNames_def set_own_property_keys has_property_def)
  then obtain arr where g: "get_property eventName (listeners s) = Some arr"
    by (auto simp: has_property_iff)
  from get_property_in_set[OF g] reachable_nonempty[OF assms] have "arr \<noteq> []"
    by (auto simp: list_all_iff)
  with g show "registered (listeners s) eventName \<noteq> []" by (simp add: registered_def)
qed

theorem registered_names_have_listeners_witness:
  "reachable (\<lambda>i t args. CallOn ''b'' (Function 1) Return)
     \<lparr>listeners = [(''a'', [Function 0]), (''b'', [Function 1])], world = (),
      calls = [Invocation (Function 0) Undefined [Undefined, Undefined, Undefined] []]\<rparr> \<and>
   fst (eventNames
     \<lparr>listeners = [(''a'', [Function 0]), (''b'', [Function 1])], world = (),
      calls = [Invocation (Function 0) Undefined [Undefined, Undefined, Undefined] []]\<rparr>)
     = [''a'', ''b''] \<and>
   registered [(''a'', [Function 0]), (''b'', [Function 1])] ''a'' \<noteq> [] \<and>
   registered [(''a'', [Function 0]), (''b'', [Function 1])] ''b'' \<noteq> []"
proof -
  let ?code = "\<lambda>(i::nat) (t::jsval) (args::jsval list). CallOn ''b'' (Function 1) (Return :: unit prog)"
  let ?s = "on ''a'' (Function 0) (new_emitter ())"
  let ?s' = "\<lparr>listeners = [(''a'', [Function 0]), (''b'', [Function 1])], world = (),
        calls = [Invocation (Function 0) Undefined [Undefined, Undefined, Undefined] []]\<rparr>"
  have e: "emit 2 ?code ''a'' [] ?s = Some (Normal, ?s')"
    by (simp add: emit.simps forEach.simps call_listener.simps on_def register_def
        has_property_def new_emitter_def Let_def parameter_def numeral_2_eq_2)
  have "reachable ?code ?s" by (intro reachable.intros)
  from reachable_emit[OF this e] have r: "reachable ?code ?s'" .
  have n: "fst (eventNames ?s') = [''a'', ''b'']"
    by (simp add: eventNames_def own_property_keys_def index_keys_def array_index_def
        digit_value_def List.map_filter_def)
  from registered_names_have_listeners[OF r] n
  have "registered (listeners ?s') ''a'' \<noteq> []" "registered (listeners ?s') ''b'' \<noteq> []"
    by simp_all
  then have "registered [(''a'', [Function 0]), (''b'', [Function 1])] ''a'' \<noteq> []"
    "registered [(''a'', [Function 0]), (''b'', [Function 1])] ''b'' \<noteq> []" by simp_all
  with r n show ?thesis by (intro conjI)
qed

end
